theory Spec2Isabelle
  imports Main "HOL-Library.Multiset"
begin

section \<open>BookFinder: the search session controller of \<open>src/App.jsx\<close>\<close>

text \<open>
  The component \<open>BookFinder\<close> keeps its state in React hooks. The model below is a record
  of that state together with the parts of the browser the component talks to (the timer
  table of \<open>setTimeout\<close>, the in-flight \<open>fetch\<close> calls with their abort controllers,
  \<open>localStorage\<close>), and one transition function per event handler and per effect.
  JavaScript strings are modelled as \<open>string\<close> and years as \<open>int\<close>.
\<close>

subsection \<open>Catalog records\<close>

text \<open>
  A search result (\<open>doc\<close>) is an object of the Open Library response. A favourite holds the
  five fields that \<open>toggleFavorite\<close> copies; a \<open>doc\<close> extends it by the fields that
  \<open>coverFor\<close> reads. A field that may be missing (\<open>undefined\<close>) is an option.
\<close>

text \<open>
  A cover id is a number that ends up in a template string, and JavaScript numbers are
  doubles: an integer is printed digit for digit only when its magnitude is below
  \<open>2^53\<close> (beyond that the double rounds, \<open>2^60\<close> is printed as
  \<open>1152921504606847000\<close>, and from \<open>10^21\<close> on the exponent form is used). The
  ids of the model are these safe integers; fractions and larger numbers are not ids of
  the catalog and have no value in the type.
\<close>

typedef safe_int = "{i :: int. \<bar>i\<bar> < 2 ^ 53}"
  morphisms number Safe
  by (rule exI [of _ 0]) simp

record fav =
  key :: string
  title :: string
  author_name :: "string list option"
  cover_i :: "safe_int option"
  first_publish_year :: "int option"

record doc = fav +
  isbn :: "string list option"
  cover_edition_key :: "string option"

datatype sort_mode = Relevance | YearAsc | YearDesc

subsection \<open>Numbers in template strings\<close>

fun digits :: "nat \<Rightarrow> string" where
  "digits n = (if n < 10 then [''0123456789'' ! n]
               else digits (n div 10) @ [''0123456789'' ! (n mod 10)])"

text \<open>\<open>${doc.cover_i}\<close>: the sign and the decimal digits of a safe integer.\<close>

definition show_int :: "safe_int \<Rightarrow> string" where
  "show_int c =
     (if number c < 0 then CHR ''-'' # digits (nat (- number c)) else digits (nat (number c)))"

text \<open>
  Reading decimal digits back, to say what the digits printed by \<open>digits\<close> denote.
\<close>

definition digit_value :: "char \<Rightarrow> nat" where
  "digit_value ch = of_char ch - 48"

definition decimal_value :: "string \<Rightarrow> nat" where
  "decimal_value ds = foldl (\<lambda>a ch. 10 * a + digit_value ch) 0 ds"

subsection \<open>\<open>coverFor\<close>\<close>

text \<open>
  \<open>if (doc.cover_i)\<close> is JavaScript truthiness: a missing id and the id \<open>0\<close> both fail it;
  \<open>doc.isbn && doc.isbn.length\<close> fails for a missing and for an empty array;
  \<open>if (doc.cover_edition_key)\<close> fails for a missing and for an empty string.
\<close>

definition truthy_num :: "safe_int option \<Rightarrow> bool" where
  "truthy_num v = (case v of None \<Rightarrow> False | Some n \<Rightarrow> number n \<noteq> 0)"

definition truthy_str :: "string option \<Rightarrow> bool" where
  "truthy_str v = (case v of None \<Rightarrow> False | Some s \<Rightarrow> s \<noteq> [])"

definition truthy_len :: "string list option \<Rightarrow> bool" where
  "truthy_len v = (case v of None \<Rightarrow> False | Some xs \<Rightarrow> xs \<noteq> [])"

definition cover_base :: string where
  "cover_base = ''https://covers.openlibrary.org/b/''"

definition coverFor :: "'a doc_scheme \<Rightarrow> string \<Rightarrow> string option" where
  "coverFor d sz =
     (if truthy_num (cover_i d) then
        Some (cover_base @ ''id/'' @ show_int (the (cover_i d)) @ ''-'' @ sz @ ''.jpg'')
      else if truthy_len (isbn d) then
        Some (cover_base @ ''isbn/'' @ hd (the (isbn d)) @ ''-'' @ sz @ ''.jpg'')
      else if truthy_str (cover_edition_key d) then
        Some (cover_base @ ''olid/'' @ the (cover_edition_key d) @ ''-'' @ sz @ ''.jpg'')
      else None)"

subsection \<open>Favourites and recent searches\<close>

text \<open>The updater passed to \<open>setFavorites\<close> in \<open>toggleFavorite\<close>.\<close>

definition toggleFavorite :: "'a fav_scheme \<Rightarrow> fav list \<Rightarrow> fav list" where
  "toggleFavorite book prev =
     (case find (\<lambda>b. key b = key book) prev of
        Some exists \<Rightarrow> filter (\<lambda>b. key b \<noteq> key book) prev
      | None \<Rightarrow>
          \<lparr> key = key book, title = title book, author_name = author_name book,
            cover_i = cover_i book, first_publish_year = first_publish_year book \<rparr> # prev)"

text \<open>The updater passed to \<open>setRecent\<close> after a successful fetch.\<close>

definition record_recent :: "string \<Rightarrow> string list \<Rightarrow> string list" where
  "record_recent searchTerm prev = take 8 (searchTerm # filter (\<lambda>x. x \<noteq> searchTerm) prev)"

subsection \<open>Sorting the returned documents\<close>

text \<open>
  \<open>Array.prototype.sort\<close> with a comparator is a stable sort: an element moves behind
  another only when the comparator is positive. It is modelled as an insertion sort that
  inserts the elements from the last to the first, each before the first element it does
  not compare greater than.
\<close>

fun insert_cmp :: "('a \<Rightarrow> 'a \<Rightarrow> int) \<Rightarrow> 'a \<Rightarrow> 'a list \<Rightarrow> 'a list" where
  "insert_cmp cmp x [] = [x]"
| "insert_cmp cmp x (y # ys) =
     (if cmp x y \<le> 0 then x # y # ys else y # insert_cmp cmp x ys)"

definition js_sort :: "('a \<Rightarrow> 'a \<Rightarrow> int) \<Rightarrow> 'a list \<Rightarrow> 'a list" where
  "js_sort cmp xs = foldr (insert_cmp cmp) xs []"

text \<open>\<open>a.first_publish_year || 0\<close>\<close>

definition year_or_0 :: "'a fav_scheme \<Rightarrow> int" where
  "year_or_0 d = (case first_publish_year d of None \<Rightarrow> 0 | Some y \<Rightarrow> y)"

definition cmp_asc :: "'a fav_scheme \<Rightarrow> 'a fav_scheme \<Rightarrow> int" where
  "cmp_asc a b = year_or_0 a - year_or_0 b"

definition cmp_desc :: "'a fav_scheme \<Rightarrow> 'a fav_scheme \<Rightarrow> int" where
  "cmp_desc a b = year_or_0 b - year_or_0 a"

definition apply_sort :: "sort_mode \<Rightarrow> doc list \<Rightarrow> doc list" where
  "apply_sort sortBy docs =
     (if sortBy = YearAsc then js_sort cmp_asc docs
      else if sortBy = YearDesc then js_sort cmp_desc docs
      else docs)"

text \<open>
  The same lines with the arrays as objects on a heap, to speak about mutation: an array
  is a cell of the heap, \<open>[...docs]\<close> allocates a new cell holding a copy, and \<open>sort\<close>
  overwrites the cell it is called on and returns its address.
\<close>

type_synonym heap = "doc list list"

definition spread :: "heap \<Rightarrow> nat \<Rightarrow> heap \<times> nat" where
  "spread h a = (h @ [h ! a], length h)"

definition sort_in_place :: "(doc \<Rightarrow> doc \<Rightarrow> int) \<Rightarrow> heap \<Rightarrow> nat \<Rightarrow> heap \<times> nat" where
  "sort_in_place cmp h a = (h[a := js_sort cmp (h ! a)], a)"

definition sort_docs :: "sort_mode \<Rightarrow> heap \<Rightarrow> nat \<Rightarrow> heap \<times> nat" where
  "sort_docs sortBy h docs =
     (if sortBy = YearAsc then
        (case spread h docs of (h1, c) \<Rightarrow> sort_in_place cmp_asc h1 c)
      else if sortBy = YearDesc then
        (case spread h docs of (h1, c) \<Rightarrow> sort_in_place cmp_desc h1 c)
      else (h, docs))"

subsection \<open>Responses of the wrong shape\<close>

text \<open>
  The body of a response is whatever JSON the server sends. Where the catalog sends an
  array of documents, the code may therefore find a \<open>docs\<close> that is no array, or an array
  with \<open>null\<close> among its entries. \<open>NotArray\<close> stands for a truthy value that cannot be
  spread (an object, a number other than 0, \<open>true\<close>); an entry \<open>None\<close> of an array is a
  \<open>null\<close>. Strings, and array entries that are neither objects nor \<open>null\<close>, are left
  out: the code does not throw on them.
\<close>

datatype docs_value = NotArray | Array "doc option list"

text \<open>An array of documents, as the catalog sends it.\<close>

abbreviation typed_docs :: "doc list \<Rightarrow> docs_value" where
  "typed_docs ds \<equiv> Array (map Some ds)"

text \<open>
  The messages of the \<open>TypeError\<close>s the engine throws: for spreading a value that is not
  iterable, and for reading a property of \<open>null\<close>. The wording is the engine's and
  differs between engines; no engine leaves it empty.
\<close>

definition not_iterable_message :: string where
  "not_iterable_message = ''docs is not iterable''"

definition null_property_message :: string where
  "null_property_message = ''Cannot read properties of null''"

text \<open>
  The comparators on entries: \<open>a.first_publish_year\<close> throws when \<open>a\<close> is \<open>null\<close>. The left
  operand of the subtraction is evaluated first. \<open>Inl\<close> carries the message of the error
  thrown.
\<close>

definition year_of_entry :: "doc option \<Rightarrow> string + int" where
  "year_of_entry e =
     (case e of None \<Rightarrow> Inl null_property_message | Some d \<Rightarrow> Inr (year_or_0 d))"

definition minus_throw :: "string + int \<Rightarrow> string + int \<Rightarrow> string + int" where
  "minus_throw x y =
     (case x of
        Inl m \<Rightarrow> Inl m
      | Inr a \<Rightarrow> (case y of Inl m \<Rightarrow> Inl m | Inr b \<Rightarrow> Inr (a - b)))"

definition cmp_asc_entry :: "doc option \<Rightarrow> doc option \<Rightarrow> string + int" where
  "cmp_asc_entry a b = minus_throw (year_of_entry a) (year_of_entry b)"

definition cmp_desc_entry :: "doc option \<Rightarrow> doc option \<Rightarrow> string + int" where
  "cmp_desc_entry a b = minus_throw (year_of_entry b) (year_of_entry a)"

text \<open>
  The insertion sort of \<open>js_sort\<close> with a comparator that may throw: the first error ends
  the sort.
\<close>

fun insert_cmp_throw ::
  "('a \<Rightarrow> 'a \<Rightarrow> string + int) \<Rightarrow> 'a \<Rightarrow> 'a list \<Rightarrow> string + 'a list" where
  "insert_cmp_throw cmp x [] = Inr [x]"
| "insert_cmp_throw cmp x (y # ys) =
     (case cmp x y of
        Inl m \<Rightarrow> Inl m
      | Inr c \<Rightarrow>
          if c \<le> 0 then Inr (x # y # ys)
          else (case insert_cmp_throw cmp x ys of
                  Inl m \<Rightarrow> Inl m
                | Inr zs \<Rightarrow> Inr (y # zs)))"

fun js_sort_throw :: "('a \<Rightarrow> 'a \<Rightarrow> string + int) \<Rightarrow> 'a list \<Rightarrow> string + 'a list" where
  "js_sort_throw cmp [] = Inr []"
| "js_sort_throw cmp (x # xs) =
     (case js_sort_throw cmp xs of
        Inl m \<Rightarrow> Inl m
      | Inr ys \<Rightarrow> insert_cmp_throw cmp x ys)"

text \<open>\<open>[...docs].sort(cmp)\<close>: the spread throws when \<open>docs\<close> is not iterable.\<close>

definition spread_sort ::
  "(doc option \<Rightarrow> doc option \<Rightarrow> string + int) \<Rightarrow> docs_value \<Rightarrow> string + docs_value" where
  "spread_sort cmp docs =
     (case docs of
        NotArray \<Rightarrow> Inl not_iterable_message
      | Array es \<Rightarrow>
          (case js_sort_throw cmp es of Inl m \<Rightarrow> Inl m | Inr zs \<Rightarrow> Inr (Array zs)))"

text \<open>
  Lines 113 to 117 of \<open>fetchBooks\<close> on any \<open>docs\<close>: the sorted value, or the message of the
  error thrown.
\<close>

definition sort_stage :: "sort_mode \<Rightarrow> docs_value \<Rightarrow> string + docs_value" where
  "sort_stage sortBy docs =
     (if sortBy = YearAsc then spread_sort cmp_asc_entry docs
      else if sortBy = YearDesc then spread_sort cmp_desc_entry docs
      else Inr docs)"

subsection \<open>The state of the component and of its environment\<close>

text \<open>
  \<open>String.prototype.trim\<close> removes white space and line terminators at both ends. The
  characters of \<open>string\<close> are bytes, so the white space modelled is the one below 256:
  tab, line feed, vertical tab, form feed, carriage return, space and no-break space.
\<close>

definition is_space :: "char \<Rightarrow> bool" where
  "is_space c = (of_char c \<in> {9, 10, 11, 12, 13, 32, 160 :: nat})"

definition trim :: "string \<Rightarrow> string" where
  "trim s = rev (dropWhile is_space (rev (dropWhile is_space s)))"

text \<open>
  A pending \<open>setTimeout\<close> of the debounce effect: the time it is due and the \<open>query\<close> its
  callback has captured.
\<close>

record timer =
  t_due :: nat
  t_query :: string

text \<open>
  An in-flight call of \<open>fetchBooks\<close>: the \<open>searchTerm\<close>, \<open>page\<close> and \<open>sortBy\<close> captured by
  the closure, and whether its \<open>AbortController\<close> has been aborted.
\<close>

record invocation =
  inv_term :: string
  inv_page :: nat
  inv_sort :: sort_mode
  aborted :: bool

text \<open>
  What is kept under the keys \<open>bf_favs\<close> and \<open>bf_recent\<close>. \<open>Corrupt\<close> is a value that
  \<open>JSON.parse\<close> rejects.
\<close>

datatype 'a stored = Absent | Corrupt | Stored 'a

record storage =
  bf_favs :: "fav list stored"
  bf_recent :: "string list stored"

definition load :: "'a list stored \<Rightarrow> 'a list" where
  "load v = (case v of Absent \<Rightarrow> [] | Corrupt \<Rightarrow> [] | Stored xs \<Rightarrow> xs)"

record app =
  query :: string
  searchTerm :: string
  searchTrigger :: nat
  results :: docs_value
  loading :: bool
  error :: "string option"
  page :: nat
  numFound :: nat
  sortBy :: sort_mode
  favorites :: "fav list"
  recent :: "string list"
  debounceRef :: "nat option"
  controller :: "nat option"
  localStorage :: storage
  now :: nat
  timers :: "(nat \<times> timer) list"
  nextTimer :: nat
  requests :: "nat \<rightharpoonup> invocation"
  calls :: "(string \<times> nat \<times> nat) list"

text \<open>
  \<open>debounceRef\<close> is the handle in \<open>debounceRef.current\<close> (\<open>None\<close> for \<open>null\<close>; handles are
  positive, so a stored handle is truthy). \<open>controller\<close> is the invocation whose
  \<open>AbortController\<close> the cleanup of the last run of the fetch effect aborts (\<open>None\<close> when
  that run returned early and left no cleanup). \<open>timers\<close> is the browser's table of pending
  timeouts by handle, \<open>requests\<close> the fetches whose promise has not settled, numbered in
  the order of issue, and \<open>calls\<close> the log of the remote calls issued: title, page, limit.
\<close>

definition RESULTS_PER_PAGE :: nat where
  "RESULTS_PER_PAGE = 20"

subsection \<open>The debounce effect (dependency: \<open>query\<close>)\<close>

definition clearTimeout :: "nat \<Rightarrow> app \<Rightarrow> app" where
  "clearTimeout h s = s\<lparr>timers := filter (\<lambda>t. fst t \<noteq> h) (timers s)\<rparr>"

definition clear_debounce :: "app \<Rightarrow> app" where
  "clear_debounce s = (case debounceRef s of None \<Rightarrow> s | Some h \<Rightarrow> clearTimeout h s)"

definition debounce_cleanup :: "app \<Rightarrow> app" where
  "debounce_cleanup s = clear_debounce s"

definition debounce_effect :: "app \<Rightarrow> app" where
  "debounce_effect s0 =
     (let s = clear_debounce s0 in
      if trim (query s) \<noteq> [] then
        s\<lparr>debounceRef := Some (nextTimer s),
          timers := timers s @ [(nextTimer s, \<lparr>t_due = now s + 450, t_query = query s\<rparr>)],
          nextTimer := Suc (nextTimer s)\<rparr>
      else s\<lparr>results := Array [], numFound := 0, error := None\<rparr>)"

subsection \<open>The fetch effect (dependencies: \<open>searchTerm\<close>, \<open>page\<close>, \<open>sortBy\<close>, \<open>searchTrigger\<close>)\<close>

definition abort :: "nat \<Rightarrow> app \<Rightarrow> app" where
  "abort i s =
     s\<lparr>requests := (requests s)(i := map_option (\<lambda>r. r\<lparr>aborted := True\<rparr>) (requests s i))\<rparr>"

definition fetch_cleanup :: "app \<Rightarrow> app" where
  "fetch_cleanup s =
     (case controller s of None \<Rightarrow> s | Some i \<Rightarrow> abort i s)"

text \<open>
  The body of the effect up to the first \<open>await\<close>: the early return for an empty
  \<open>searchTerm\<close>, or a new controller, \<open>setLoading(true)\<close>, \<open>setError(null)\<close> and the call of
  \<open>fetch\<close>.
\<close>

definition fetch_effect :: "app \<Rightarrow> app" where
  "fetch_effect s =
     (if searchTerm s = [] then
        s\<lparr>results := Array [], numFound := 0, error := None, controller := None\<rparr>
      else
        s\<lparr>controller := Some (length (calls s)),
          requests := (requests s)(length (calls s) \<mapsto>
             \<lparr>inv_term = searchTerm s, inv_page = page s, inv_sort = sortBy s, aborted = False\<rparr>),
          calls := calls s @ [(searchTerm s, page s, RESULTS_PER_PAGE)],
          loading := True,
          error := None\<rparr>)"

definition fetch_deps :: "app \<Rightarrow> string \<times> nat \<times> sort_mode \<times> nat" where
  "fetch_deps s = (searchTerm s, page s, sortBy s, searchTrigger s)"

text \<open>
  After a handler has changed the state from \<open>old\<close> to \<open>s\<close>, React renders again and
  re-runs the effects whose dependencies have changed: first their cleanups, then their
  bodies, each in the order of declaration.
\<close>

definition rerender :: "app \<Rightarrow> app \<Rightarrow> app" where
  "rerender old s =
     (let q = (query s \<noteq> query old);
          f = (fetch_deps s \<noteq> fetch_deps old);
          s1 = (if q then debounce_cleanup s else s);
          s2 = (if f then fetch_cleanup s1 else s1);
          s3 = (if q then debounce_effect s2 else s2)
      in if f then fetch_effect s3 else s3)"

subsection \<open>The settling of a fetch\<close>

text \<open>
  The response body as \<open>res.json()\<close> sees it: not JSON (the promise rejects with the
  given message), the JSON value \<open>null\<close>, or a value with the optional fields \<open>numFound\<close>
  and \<open>docs\<close> (\<open>None\<close> for a field that is missing or falsy; a body that is a number, a
  string or a boolean has neither field). The promise of \<open>fetch\<close> rejects with a message
  (network failure) or resolves with a status and a body.
\<close>

datatype body = Malformed string | JsonNull | Parsed "nat option" "docs_value option"

datatype outcome = NetworkFailure string | Response nat body

definition res_ok :: "nat \<Rightarrow> bool" where
  "res_ok status = (200 \<le> status \<and> status \<le> 299)"

text \<open>\<open>err.message || "Failed to fetch books"\<close>\<close>

definition error_message :: "string \<Rightarrow> string" where
  "error_message msg = (if msg = [] then ''Failed to fetch books'' else msg)"

definition fail :: "string \<Rightarrow> app \<Rightarrow> app" where
  "fail msg s = s\<lparr>error := Some (error_message msg), loading := False\<rparr>"

definition persist_recent :: "string list \<Rightarrow> app \<Rightarrow> app" where
  "persist_recent updated s =
     s\<lparr>recent := updated, localStorage := (localStorage s)\<lparr>bf_recent := Stored updated\<rparr>\<rparr>"

text \<open>
  The rest of \<open>fetchBooks\<close> for invocation \<open>i\<close>, run when its promise settles. Once the
  controller is aborted, \<open>fetch\<close> and \<open>res.json()\<close> reject with an \<open>AbortError\<close> whatever
  the network delivers; the \<open>catch\<close> block skips \<open>setError\<close> for it, the \<open>finally\<close> block
  runs in every case. For a body of the wrong shape, \<open>data.numFound\<close> throws on \<open>null\<close>
  before anything is set, and the sort throws after \<open>setNumFound\<close> has run.
\<close>

definition settle :: "nat \<Rightarrow> outcome \<Rightarrow> app \<Rightarrow> app" where
  "settle i out s0 =
     (case requests s0 i of
        None \<Rightarrow> s0
      | Some r \<Rightarrow>
          let s = s0\<lparr>requests := (requests s0)(i := None)\<rparr> in
          if aborted r then s\<lparr>loading := False\<rparr>
          else
            (case out of
               NetworkFailure msg \<Rightarrow> fail msg s
             | Response status b \<Rightarrow>
                 if \<not> res_ok status then fail (''Server error: '' @ digits status) s
                 else
                   (case b of
                      Malformed msg \<Rightarrow> fail msg s
                    | JsonNull \<Rightarrow> fail null_property_message s
                    | Parsed nf dv \<Rightarrow>
                        (let s1 = s\<lparr>numFound := (case nf of None \<Rightarrow> 0 | Some n \<Rightarrow> n)\<rparr> in
                         case sort_stage (inv_sort r)
                                (case dv of None \<Rightarrow> Array [] | Some v \<Rightarrow> v) of
                           Inl msg \<Rightarrow> fail msg s1
                         | Inr docs \<Rightarrow>
                             (persist_recent (record_recent (inv_term r) (recent s1))
                                (s1\<lparr>results := docs\<rparr>))
                             \<lparr>loading := False\<rparr>))))"

subsection \<open>The timer\<close>

text \<open>The callback of the debounce timeout, followed by the render it causes.\<close>

definition commit :: "nat \<times> timer \<Rightarrow> app \<Rightarrow> app" where
  "commit t s =
     rerender s (s\<lparr>page := 1, searchTerm := trim (t_query (snd t)),
                   searchTrigger := searchTrigger s + 1\<rparr>)"

text \<open>Time passes by \<open>d\<close>; the timeouts that are due by then fire in the order they were set.\<close>

definition advance :: "nat \<Rightarrow> app \<Rightarrow> app" where
  "advance d s =
     fold commit (filter (\<lambda>t. t_due (snd t) \<le> now s + d) (timers s))
       (s\<lparr>now := now s + d,
          timers := filter (\<lambda>t. \<not> t_due (snd t) \<le> now s + d) (timers s)\<rparr>)"

subsection \<open>Event handlers\<close>

datatype event =
    SetQuery string
  | ClickSearch
  | ClickClear
  | UseRecent string
  | SetSortBy sort_mode
  | NextPage
  | PrevPage
  | ToggleFavorite fav
  | ClearFavorites
  | ClearRecent
  | Advance nat
  | Settle nat outcome

text \<open>
  The state changes a handler makes before React renders again. The search button is
  disabled while the trimmed query is empty; a chip exists for each recent search only.
\<close>

definition handler :: "event \<Rightarrow> app \<Rightarrow> app" where
  "handler e s =
     (case e of
        SetQuery q \<Rightarrow> s\<lparr>query := q\<rparr>
      | ClickSearch \<Rightarrow>
          if trim (query s) = [] then s
          else s\<lparr>searchTerm := trim (query s), page := 1, searchTrigger := searchTrigger s + 1\<rparr>
      | ClickClear \<Rightarrow>
          s\<lparr>query := [], searchTerm := [], results := Array [], numFound := 0,
            error := None\<rparr>
      | UseRecent term \<Rightarrow>
          if term \<in> set (recent s) then
            s\<lparr>query := term, searchTerm := term, page := 1, searchTrigger := searchTrigger s + 1\<rparr>
          else s
      | SetSortBy m \<Rightarrow> s\<lparr>sortBy := m\<rparr>
      | NextPage \<Rightarrow>
          if page s < (numFound s + RESULTS_PER_PAGE - 1) div RESULTS_PER_PAGE
          then s\<lparr>page := page s + 1\<rparr> else s
      | PrevPage \<Rightarrow> if page s > 1 then s\<lparr>page := page s - 1\<rparr> else s
      | ToggleFavorite book \<Rightarrow>
          (let updatedFavorites = toggleFavorite book (favorites s) in
           s\<lparr>favorites := updatedFavorites,
             localStorage := (localStorage s)\<lparr>bf_favs := Stored updatedFavorites\<rparr>\<rparr>)
      | ClearFavorites \<Rightarrow>
          s\<lparr>favorites := [], localStorage := (localStorage s)\<lparr>bf_favs := Absent\<rparr>\<rparr>
      | ClearRecent \<Rightarrow>
          s\<lparr>recent := [], localStorage := (localStorage s)\<lparr>bf_recent := Absent\<rparr>\<rparr>
      | Advance d \<Rightarrow> s
      | Settle i out \<Rightarrow> s)"

definition step :: "app \<Rightarrow> event \<Rightarrow> app" where
  "step s e =
     (case e of
        Advance d \<Rightarrow> advance d s
      | Settle i out \<Rightarrow> settle i out s
      | _ \<Rightarrow> rerender s (handler e s))"

definition run :: "app \<Rightarrow> event list \<Rightarrow> app" where
  "run s es = fold (\<lambda>e s. step s e) es s"

text \<open>
  The state after mounting with the given storage: the initial values of the hooks; both
  effects have run once with an empty \<open>query\<close> and an empty \<open>searchTerm\<close>, which changes
  nothing.
\<close>

definition init :: "storage \<Rightarrow> app" where
  "init st =
     \<lparr> query = [], searchTerm = [], searchTrigger = 0, results = Array [], loading = False,
       error = None, page = 1, numFound = 0, sortBy = Relevance,
       favorites = load (bf_favs st), recent = load (bf_recent st),
       debounceRef = None, controller = None, localStorage = st, now = 0,
       timers = [], nextTimer = 1, requests = Map.empty, calls = [] \<rparr>"

subsection \<open>Invariants of the reachable states\<close>

text \<open>
  Every pending timeout is the one whose handle is in \<open>debounceRef\<close>; it was set for the
  current \<open>query\<close>, whose trimmed value is not empty, and it is not due yet. At most one
  is pending.
\<close>

definition wf_timers :: "app \<Rightarrow> bool" where
  "wf_timers s \<longleftrightarrow>
     length (timers s) \<le> 1 \<and>
     (\<forall>t \<in> set (timers s).
        debounceRef s = Some (fst t) \<and> t_query (snd t) = query s \<and>
        trim (query s) \<noteq> [] \<and> now s < t_due (snd t))"

text \<open>
  Every in-flight fetch has been issued, and is aborted unless it belongs to the last run
  of the fetch effect; that run's invocation is the last one issued.
\<close>

definition wf_requests :: "app \<Rightarrow> bool" where
  "wf_requests s \<longleftrightarrow>
     (\<forall>j r. requests s j = Some r \<longrightarrow>
        j < length (calls s) \<and> (controller s \<noteq> Some j \<longrightarrow> aborted r)) \<and>
     (\<forall>j. controller s = Some j \<longrightarrow> Suc j = length (calls s))"

subsection \<open>Scenarios\<close>

text \<open>
  A burst of typing: each pair is a new value of the input field and the time that passes
  before the next change.
\<close>

fun typing :: "(string \<times> nat) list \<Rightarrow> event list" where
  "typing [] = []"
| "typing ((q, d) # cs) = SetQuery q # Advance d # typing cs"

text \<open>
  The outcomes of a fetch that end in the \<open>catch\<close> block when the controller is not
  aborted. Before the body is read as an object: a rejected \<open>fetch\<close>, a status outside
  200 to 299, a body that is not JSON or is \<open>null\<close>. After \<open>setNumFound\<close>: a \<open>docs\<close> on
  which the sort of the invocation throws.
\<close>

definition fails_early :: "outcome \<Rightarrow> bool" where
  "fails_early out =
     (case out of
        NetworkFailure msg \<Rightarrow> True
      | Response status b \<Rightarrow>
          \<not> res_ok status \<or>
          (case b of Malformed msg \<Rightarrow> True | JsonNull \<Rightarrow> True | Parsed nf dv \<Rightarrow> False))"

definition fails_in_sort :: "sort_mode \<Rightarrow> outcome \<Rightarrow> bool" where
  "fails_in_sort m out =
     (case out of
        NetworkFailure msg \<Rightarrow> False
      | Response status b \<Rightarrow>
          res_ok status \<and>
          (case b of
             Malformed msg \<Rightarrow> False
           | JsonNull \<Rightarrow> False
           | Parsed nf dv \<Rightarrow>
               isl (sort_stage m (case dv of None \<Rightarrow> Array [] | Some v \<Rightarrow> v))))"

definition is_failure :: "sort_mode \<Rightarrow> outcome \<Rightarrow> bool" where
  "is_failure m out = (fails_early out \<or> fails_in_sort m out)"

text \<open>Fixtures: an empty storage, and two documents of a response for the title \<open>dune\<close>.\<close>

abbreviation no_storage :: storage where
  "no_storage \<equiv> \<lparr>bf_favs = Absent, bf_recent = Absent\<rparr>"

abbreviation book_A :: doc where
  "book_A \<equiv> \<lparr>key = ''A'', title = ''Dune'', author_name = Some [''Frank Herbert''],
              cover_i = Some (Safe 12), first_publish_year = Some 1965,
              isbn = Some [''0441013597''], cover_edition_key = Some ''OL7M''\<rparr>"

abbreviation book_B :: doc where
  "book_B \<equiv> \<lparr>key = ''B'', title = ''Dune (film tie-in)'', author_name = None,
              cover_i = None, first_publish_year = Some 2000,
              isbn = Some [], cover_edition_key = Some ''OL9M''\<rparr>"

abbreviation fav_A :: fav where
  "fav_A \<equiv> \<lparr>key = ''A'', title = ''Dune'', author_name = Some [''Frank Herbert''],
             cover_i = Some (Safe 12), first_publish_year = Some 1965\<rparr>"

abbreviation fav_B :: fav where
  "fav_B \<equiv> \<lparr>key = ''B'', title = ''Dune (film tie-in)'', author_name = None,
             cover_i = None, first_publish_year = Some 2000\<rparr>"

declare digits.simps [simp del]

declare digits.simps [simp del]

section \<open>Favourites\<close>

lemma find_None_filter: "find P xs = None \<Longrightarrow> filter (\<lambda>x. \<not> P x) xs = xs"
  by (induction xs) (auto split: if_splits)

lemma find_filter_neg: "find P (filter (\<lambda>x. \<not> P x) xs) = None"
  by (induction xs) auto

text \<open>
  Claim C3, as amended. Toggling the same book twice gives back the list, in content and
  order, when no entry had the book's key. When an entry had it, the first toggle removes
  every entry with that key and the second puts the entry made from the book at the
  front: the other entries keep their order, but the book does not return to its old
  position.
\<close>

theorem toggleFavorite_twice:
  "toggleFavorite book (toggleFavorite book prev) =
     (if \<exists>b \<in> set prev. key b = key book
      then \<lparr> key = key book, title = title book, author_name = author_name book,
            cover_i = cover_i book, first_publish_year = first_publish_year book \<rparr>
           # filter (\<lambda>b. key b \<noteq> key book) prev
      else prev)"
proof (cases "find (\<lambda>b. key b = key book) prev")
  case None
  then have n: "\<not> (\<exists>b \<in> set prev. key b = key book)"
    by (simp add: find_None_iff)
  have "toggleFavorite book prev =
          \<lparr> key = key book, title = title book, author_name = author_name book,
            cover_i = cover_i book, first_publish_year = first_publish_year book \<rparr> # prev"
    using None by (simp add: toggleFavorite_def)
  moreover have "toggleFavorite book
          (\<lparr> key = key book, title = title book, author_name = author_name book,
             cover_i = cover_i book, first_publish_year = first_publish_year book \<rparr> # prev)
        = filter (\<lambda>b. key b \<noteq> key book) prev"
    by (simp add: toggleFavorite_def)
  ultimately show ?thesis
    using n find_None_filter [OF None] by simp
next
  case (Some e)
  have e: "\<exists>b \<in> set prev. key b = key book"
  proof (rule ccontr)
    assume "\<not> ?thesis"
    then have "find (\<lambda>b. key b = key book) prev = None"
      by (simp add: find_None_iff)
    with Some show False by simp
  qed
  have "toggleFavorite book prev = filter (\<lambda>b. key b \<noteq> key book) prev"
    using Some by (simp add: toggleFavorite_def)
  moreover have "find (\<lambda>b. key b = key book) (filter (\<lambda>b. key b \<noteq> key book) prev) = None"
    by (rule find_filter_neg)
  ultimately show ?thesis
    using e by (simp add: toggleFavorite_def)
qed

text \<open>
  A favourite behind the front of the list moves to the front, and a book that was not a
  favourite leaves the list as it was.
\<close>

theorem toggleFavorite_twice_witness:
  "toggleFavorite fav_B (toggleFavorite fav_B [fav_A, fav_B]) = [fav_B, fav_A]
   \<and> toggleFavorite book_B (toggleFavorite book_B [fav_A]) = [fav_A]"
  using toggleFavorite_twice [of fav_B "[fav_A, fav_B]"] toggleFavorite_twice [of book_B "[fav_A]"]
  by simp

text \<open>
  Claim C3 as stated fails: with the favourites \<open>[A, B]\<close>, toggling \<open>B\<close> twice does not
  give \<open>[A, B]\<close> back.
\<close>

theorem toggleFavorite_twice_counterexample:
  "toggleFavorite fav_B (toggleFavorite fav_B [fav_A, fav_B]) \<noteq> [fav_A, fav_B]"
  by (simp add: toggleFavorite_def)

section \<open>Sorting\<close>

lemma insert_cmp_asc: "insert_cmp cmp_asc x ys = insort_key year_or_0 x ys"
  by (induction ys) (auto simp: cmp_asc_def)

lemma insert_cmp_desc: "insert_cmp cmp_desc x ys = insort_key (\<lambda>d. - year_or_0 d) x ys"
  by (induction ys) (auto simp: cmp_desc_def)

lemma js_sort_asc: "js_sort cmp_asc xs = sort_key year_or_0 xs"
  by (induction xs) (simp_all add: js_sort_def insert_cmp_asc)

lemma js_sort_desc: "js_sort cmp_desc xs = sort_key (\<lambda>d. - year_or_0 d) xs"
  by (induction xs) (simp_all add: js_sort_def insert_cmp_desc)

lemma asc_sorted: "sorted (map year_or_0 (apply_sort YearAsc ds))"
  by (simp add: apply_sort_def js_sort_asc)

lemma desc_sorted: "sorted (rev (map year_or_0 (apply_sort YearDesc ds)))"
proof -
  have "sorted (map (\<lambda>d. - year_or_0 d) (apply_sort YearDesc ds))"
    by (simp add: apply_sort_def js_sort_desc)
  then have "sorted_wrt (\<lambda>a b. year_or_0 b \<le> year_or_0 a) (apply_sort YearDesc ds)"
    by (simp add: sorted_wrt_map)
  then have "sorted_wrt (\<lambda>a b. b \<le> a) (map year_or_0 (apply_sort YearDesc ds))"
    by (simp add: sorted_wrt_map)
  then show ?thesis
    by (simp add: sorted_wrt_rev)
qed

lemma apply_sort_stable:
  "filter (\<lambda>d. year_or_0 d = y) (apply_sort m ds) = filter (\<lambda>d. year_or_0 d = y) ds"
proof (cases m)
  case Relevance
  then show ?thesis by (simp add: apply_sort_def)
next
  case YearAsc
  then show ?thesis by (simp add: apply_sort_def js_sort_asc sort_key_stable)
next
  case YearDesc
  have "filter (\<lambda>d. - year_or_0 d = - y) (sort_key (\<lambda>d. - year_or_0 d) ds)
        = filter (\<lambda>d. - year_or_0 d = - y) ds"
    by (rule sort_key_stable)
  with YearDesc show ?thesis by (simp add: apply_sort_def js_sort_desc)
qed

lemma apply_sort_mset: "mset (apply_sort m ds) = mset ds"
  by (cases m) (simp_all add: apply_sort_def js_sort_asc js_sort_desc)

lemma sort_docs_heap:
  assumes "docs < length h"
  shows "take (length h) (fst (sort_docs m h docs)) = h"
    and "fst (sort_docs m h docs) ! snd (sort_docs m h docs) = apply_sort m (h ! docs)"
  using assms
  by (cases m; simp add: sort_docs_def spread_def sort_in_place_def apply_sort_def nth_append)+

text \<open>On an array of documents the sort of the code does not throw, and is \<open>apply_sort\<close>.\<close>

lemma insert_cmp_throw_typed:
  assumes "\<And>a b. cmpe (Some a) (Some b) = Inr (cmp a b)"
  shows "insert_cmp_throw cmpe (Some x) (map Some ys) = Inr (map Some (insert_cmp cmp x ys))"
  by (induction ys) (simp_all add: assms)

lemma js_sort_throw_typed:
  assumes "\<And>a b. cmpe (Some a) (Some b) = Inr (cmp a b)"
  shows "js_sort_throw cmpe (map Some xs) = Inr (map Some (js_sort cmp xs))"
  by (induction xs)
     (simp_all add: js_sort_def insert_cmp_throw_typed [of cmpe cmp, OF assms])

lemma cmp_asc_entry_Some: "cmp_asc_entry (Some a) (Some b) = Inr (cmp_asc a b)"
  by (simp add: cmp_asc_entry_def cmp_asc_def year_of_entry_def minus_throw_def)

lemma cmp_desc_entry_Some: "cmp_desc_entry (Some a) (Some b) = Inr (cmp_desc a b)"
  by (simp add: cmp_desc_entry_def cmp_desc_def year_of_entry_def minus_throw_def)

lemma sort_stage_typed: "sort_stage m (typed_docs ds) = Inr (typed_docs (apply_sort m ds))"
  by (cases m)
     (simp_all add: sort_stage_def spread_sort_def apply_sort_def
        js_sort_throw_typed [of cmp_asc_entry cmp_asc, OF cmp_asc_entry_Some]
        js_sort_throw_typed [of cmp_desc_entry cmp_desc, OF cmp_desc_entry_Some])

lemma docs_or_empty_typed:
  "(case map_option typed_docs dso of None \<Rightarrow> Array [] | Some v \<Rightarrow> v)
     = typed_docs (case dso of None \<Rightarrow> [] | Some xs \<Rightarrow> xs)"
  by (cases dso) simp_all

text \<open>
  When the sort by year throws: on a \<open>docs\<close> that is not an array, and on an array of two
  or more entries with a \<open>null\<close> among them; an array of at most one entry is returned
  without a comparison. This does not depend on the sorting algorithm, since every
  comparison sort compares each of two or more entries at least once.
\<close>

lemma length_insert_cmp: "length (insert_cmp cmp x ys) = Suc (length ys)"
  by (induction ys) simp_all

lemma length_js_sort: "length (js_sort cmp xs) = length xs"
  by (induction xs) (simp_all add: js_sort_def length_insert_cmp)

lemma js_sort_throw_short: "length es \<le> 1 \<Longrightarrow> js_sort_throw cmpe es = Inr es"
  by (cases es) (simp_all add: Suc_le_eq)

lemma js_sort_throw_null:
  assumes typed: "\<And>a b. cmpe (Some a) (Some b) = Inr (cmp a b)"
    and null: "\<And>a b. a = None \<or> b = None \<Longrightarrow> cmpe a b = Inl msg"
  shows "None \<in> set es \<Longrightarrow> 2 \<le> length es \<Longrightarrow> js_sort_throw cmpe es = Inl msg"
proof (induction es)
  case Nil
  then show ?case by simp
next
  case (Cons x xs)
  show ?case
  proof (cases "None \<in> set xs")
    case True
    show ?thesis
    proof (cases "2 \<le> length xs")
      case True
      with \<open>None \<in> set xs\<close> Cons.IH show ?thesis by simp
    next
      case False
      then have "length xs \<le> 1" by simp
      then have "xs = [] \<or> (\<exists>e. xs = [e])"
        by (cases xs) (auto simp: Suc_le_eq)
      with \<open>None \<in> set xs\<close> have "xs = [None]" by auto
      then show ?thesis by (simp add: null)
    qed
  next
    case False
    then have x: "x = None" using Cons.prems(1) by simp
    have "None \<notin> set ys \<Longrightarrow> ys = map Some (map the ys)" for ys :: "'a option list"
      by (induction ys) auto
    with False have "xs = map Some (map the xs)" by blast
    then have s: "js_sort_throw cmpe xs = Inr (map Some (js_sort cmp (map the xs)))"
      using js_sort_throw_typed [of cmpe cmp "map the xs", OF typed] by simp
    have "xs \<noteq> []" using Cons.prems(2) by auto
    then have "js_sort cmp (map the xs) \<noteq> []"
      using length_js_sort [of cmp "map the xs"] by auto
    then obtain z zs where "js_sort cmp (map the xs) = z # zs"
      by (cases "js_sort cmp (map the xs)") auto
    with s x show ?thesis by (simp add: null)
  qed
qed

lemma cmp_asc_entry_null: "a = None \<or> b = None \<Longrightarrow> cmp_asc_entry a b = Inl null_property_message"
  by (auto simp: cmp_asc_entry_def year_of_entry_def minus_throw_def split: option.splits)

lemma cmp_desc_entry_null: "a = None \<or> b = None \<Longrightarrow> cmp_desc_entry a b = Inl null_property_message"
  by (auto simp: cmp_desc_entry_def year_of_entry_def minus_throw_def split: option.splits)

lemma sort_stage_throws:
  assumes "m \<noteq> Relevance"
  shows "sort_stage m NotArray = Inl not_iterable_message"
    and "None \<in> set es \<Longrightarrow> 2 \<le> length es \<Longrightarrow> sort_stage m (Array es) = Inl null_property_message"
    and "length es \<le> 1 \<Longrightarrow> sort_stage m (Array es) = Inr (Array es)"
  using assms
    js_sort_throw_null [of cmp_asc_entry cmp_asc null_property_message es,
      OF cmp_asc_entry_Some cmp_asc_entry_null]
    js_sort_throw_null [of cmp_desc_entry cmp_desc null_property_message es,
      OF cmp_desc_entry_Some cmp_desc_entry_null]
    js_sort_throw_short [of es]
  by (cases m; simp add: sort_stage_def spread_sort_def)+

lemma sort_stage_relevance: "sort_stage Relevance docs = Inr docs"
  by (simp add: sort_stage_def)

section \<open>What a settled fetch writes\<close>

lemma step_Settle: "step s (Settle i out) = settle i out s"
  by (simp add: step_def)

lemma settle_success:
  assumes "requests s i = Some r" "\<not> aborted r" "res_ok st"
    and "sort_stage (inv_sort r) (case dv of None \<Rightarrow> Array [] | Some v \<Rightarrow> v) = Inr docs"
  shows "settle i (Response st (Parsed nf dv)) s =
     s\<lparr>requests := (requests s)(i := None),
       numFound := (case nf of None \<Rightarrow> 0 | Some n \<Rightarrow> n),
       results := docs,
       recent := record_recent (inv_term r) (recent s),
       localStorage := (localStorage s)
          \<lparr>bf_recent := Stored (record_recent (inv_term r) (recent s))\<rparr>,
       loading := False\<rparr>"
  using assms by (simp add: settle_def persist_recent_def Let_def)

lemma settle_typed:
  assumes "requests s i = Some r" "\<not> aborted r" "res_ok st"
  shows "settle i (Response st (Parsed nf (map_option typed_docs dso))) s =
     s\<lparr>requests := (requests s)(i := None),
       numFound := (case nf of None \<Rightarrow> 0 | Some n \<Rightarrow> n),
       results := typed_docs (apply_sort (inv_sort r) (case dso of None \<Rightarrow> [] | Some xs \<Rightarrow> xs)),
       recent := record_recent (inv_term r) (recent s),
       localStorage := (localStorage s)
          \<lparr>bf_recent := Stored (record_recent (inv_term r) (recent s))\<rparr>,
       loading := False\<rparr>"
proof -
  have "sort_stage (inv_sort r)
          (case map_option typed_docs dso of None \<Rightarrow> Array [] | Some v \<Rightarrow> v)
        = Inr (typed_docs (apply_sort (inv_sort r) (case dso of None \<Rightarrow> [] | Some xs \<Rightarrow> xs)))"
    unfolding docs_or_empty_typed by (rule sort_stage_typed)
  with assms show ?thesis by (rule settle_success)
qed

section \<open>Recent searches\<close>

lemma record_recent_front: "record_recent t prev = t # take 7 (filter (\<lambda>x. x \<noteq> t) prev)"
  by (simp add: record_recent_def numeral_eq_Suc)

lemma record_recent_once: "count_list (record_recent t prev) t = 1"
proof -
  have "t \<notin> set (take 7 (filter (\<lambda>x. x \<noteq> t) prev))"
    by (auto dest: in_set_takeD)
  then show ?thesis by (simp add: record_recent_front)
qed

lemma record_recent_length: "length (record_recent t prev) \<le> 8"
  by (simp add: record_recent_def)

lemma record_recent_idem: "record_recent t (record_recent t prev) = record_recent t prev"
proof -
  have "filter (\<lambda>x. x \<noteq> t) (take 7 (filter (\<lambda>x. x \<noteq> t) prev))
          = take 7 (filter (\<lambda>x. x \<noteq> t) prev)"
    by (rule filter_True) (auto dest: in_set_takeD)
  then show ?thesis by (simp add: record_recent_front)
qed

lemma recent_persisted:
  assumes "requests s i = Some r" "\<not> aborted r" "res_ok st"
  shows "recent (step s (Settle i (Response st (Parsed nf (map_option typed_docs ds)))))
           = record_recent (inv_term r) (recent s)"
    and "bf_recent (localStorage
           (step s (Settle i (Response st (Parsed nf (map_option typed_docs ds))))))
           = Stored (record_recent (inv_term r) (recent s))"
  using assms by (simp_all add: step_Settle settle_typed)

lemma recent_persisted_any:
  assumes "requests s i = Some r" "\<not> aborted r" "res_ok st"
    and "sort_stage (inv_sort r) (case dv of None \<Rightarrow> Array [] | Some v \<Rightarrow> v) = Inr rows"
  shows "recent (step s (Settle i (Response st (Parsed nf dv))))
           = record_recent (inv_term r) (recent s)
     \<and> bf_recent (localStorage (step s (Settle i (Response st (Parsed nf dv)))))
           = Stored (record_recent (inv_term r) (recent s))"
  using settle_success [OF assms, of nf] by (simp add: step_Settle)

text \<open>
  Claim C7. Recording a term puts it at the front, followed by the other terms in their
  old order, cut to eight entries in all; the term occurs once (terms are compared as
  strings, case included); recording the same term again changes nothing; and the list a
  successful fetch records is written to \<open>bf_recent\<close>: for a 2xx response whose \<open>docs\<close>, if
  present, is an array of documents, and more generally for every 2xx response on whose
  \<open>docs\<close> the sort does not throw.
\<close>

theorem record_recent_spec:
  "record_recent t prev = t # take 7 (filter (\<lambda>x. x \<noteq> t) prev)
   \<and> count_list (record_recent t prev) t = 1
   \<and> length (record_recent t prev) \<le> 8
   \<and> record_recent t (record_recent t prev) = record_recent t prev
   \<and> (requests s i = Some r \<and> \<not> aborted r \<and> res_ok st \<longrightarrow>
        recent (step s (Settle i (Response st (Parsed nf (map_option typed_docs ds)))))
          = record_recent (inv_term r) (recent s)
        \<and> bf_recent (localStorage
             (step s (Settle i (Response st (Parsed nf (map_option typed_docs ds))))))
            = Stored (recent
                (step s (Settle i (Response st (Parsed nf (map_option typed_docs ds)))))))
   \<and> (requests s i = Some r \<and> \<not> aborted r \<and> res_ok st
        \<and> sort_stage (inv_sort r) (case dv of None \<Rightarrow> Array [] | Some v \<Rightarrow> v) = Inr rows \<longrightarrow>
        recent (step s (Settle i (Response st (Parsed nf dv))))
          = record_recent (inv_term r) (recent s)
        \<and> bf_recent (localStorage (step s (Settle i (Response st (Parsed nf dv)))))
            = Stored (recent (step s (Settle i (Response st (Parsed nf dv))))))"
  using record_recent_front [of t prev] record_recent_once [of t prev]
    record_recent_length [of t prev] record_recent_idem [of t prev]
    recent_persisted [of s i r st nf ds] recent_persisted_any [of s i r st dv rows nf]
  by simp

text \<open>The definitions a concrete run unfolds to.\<close>

lemmas model_defs =
  run_def step_def handler_def rerender_def Let_def init_def load_def
  debounce_cleanup_def debounce_effect_def clear_debounce_def clearTimeout_def
  fetch_deps_def fetch_cleanup_def fetch_effect_def abort_def advance_def commit_def
  settle_def fail_def persist_recent_def error_message_def res_ok_def
  trim_def is_space_def RESULTS_PER_PAGE_def
  sort_stage_def spread_sort_def cmp_asc_entry_def cmp_desc_entry_def
  year_of_entry_def minus_throw_def year_or_0_def
  not_iterable_message_def null_property_message_def

text \<open>
  An old occurrence is dropped, a ninth entry falls off the end, and the term of a
  successful search is recorded and stored.
\<close>

theorem record_recent_spec_witness:
  "record_recent ''dune'' [''emma'', ''dune'', ''ulysses''] = [''dune'', ''emma'', ''ulysses'']
   \<and> record_recent ''dune'' [''dune'', ''emma'', ''ulysses''] = [''dune'', ''emma'', ''ulysses'']
   \<and> record_recent ''i'' [''a'', ''b'', ''c'', ''d'', ''e'', ''f'', ''g'', ''h'']
        = [''i'', ''a'', ''b'', ''c'', ''d'', ''e'', ''f'', ''g'']
   \<and> recent (run (init no_storage)
        [SetQuery ''dune'', Advance 450,
         Settle 0 (Response 200 (Parsed (Some 2) (Some (typed_docs [book_A, book_B]))))]) = [''dune'']
   \<and> bf_recent (localStorage (run (init no_storage)
        [SetQuery ''dune'', Advance 450,
         Settle 0 (Response 200 (Parsed (Some 2) (Some (typed_docs [book_A, book_B]))))])) = Stored [''dune'']"
  using
    record_recent_spec [of "''dune''" "[''emma'', ''dune'', ''ulysses'']"
      "run (init no_storage) [SetQuery ''dune'', Advance 450]" 0
      "\<lparr>inv_term = ''dune'', inv_page = 1, inv_sort = Relevance, aborted = False\<rparr>"
      200 "Some 2" "Some [book_A, book_B]" "Some (typed_docs [book_A, book_B])"
      "typed_docs [book_A, book_B]"]
    record_recent_spec [of "''i''" "[''a'', ''b'', ''c'', ''d'', ''e'', ''f'', ''g'', ''h'']"
      "run (init no_storage) [SetQuery ''dune'', Advance 450]" 0
      "\<lparr>inv_term = ''dune'', inv_page = 1, inv_sort = Relevance, aborted = False\<rparr>"
      200 "Some 2" "Some [book_A, book_B]"]
  by (simp add: model_defs record_recent_def)

section \<open>Sorting the results\<close>

lemma results_sorted:
  assumes "requests s i = Some r" "\<not> aborted r" "res_ok st"
  shows "results (step s (Settle i (Response st (Parsed nf (map_option typed_docs ds)))))
           = typed_docs (apply_sort (inv_sort r) (case ds of None \<Rightarrow> [] | Some xs \<Rightarrow> xs))"
  using assms by (simp add: step_Settle settle_typed)

text \<open>
  Claim C6. Under \<open>Relevance\<close> the documents keep their order. Under \<open>YearAsc\<close> and
  \<open>YearDesc\<close> the stored results are ordered by year, ascending and descending, a missing
  year counting as 0; they are a permutation of the documents received, and the documents
  of any one year keep their relative order. On the heap, sorting leaves every array that
  existed before as it was, the array of the response among them, and returns the array
  holding the sorted documents.
\<close>

theorem sort_spec:
  "apply_sort Relevance ds = ds
   \<and> sorted (map year_or_0 (apply_sort YearAsc ds))
   \<and> sorted (rev (map year_or_0 (apply_sort YearDesc ds)))
   \<and> mset (apply_sort m ds) = mset ds
   \<and> (\<forall>y. filter (\<lambda>d. year_or_0 d = y) (apply_sort m ds) = filter (\<lambda>d. year_or_0 d = y) ds)
   \<and> (first_publish_year (d :: doc) = None \<longrightarrow> year_or_0 d = 0)
   \<and> (requests s i = Some r \<and> \<not> aborted r \<and> res_ok st \<longrightarrow>
        results (step s (Settle i (Response st (Parsed nf (map_option typed_docs dso)))))
          = typed_docs (apply_sort (inv_sort r) (case dso of None \<Rightarrow> [] | Some xs \<Rightarrow> xs)))
   \<and> (docs < length h \<longrightarrow>
        take (length h) (fst (sort_docs m h docs)) = h
        \<and> fst (sort_docs m h docs) ! snd (sort_docs m h docs) = apply_sort m (h ! docs))"
  using asc_sorted [of ds] desc_sorted [of ds] apply_sort_mset [of m ds]
    apply_sort_stable [of _ m ds] results_sorted [of s i r st nf dso]
    sort_docs_heap [of docs h m]
  by (simp add: apply_sort_def year_or_0_def)

theorem sort_spec_witness:
  "apply_sort YearAsc
      [book_B, book_A\<lparr>first_publish_year := None\<rparr>, book_B\<lparr>first_publish_year := Some 0\<rparr>, book_A]
    = [book_A\<lparr>first_publish_year := None\<rparr>, book_B\<lparr>first_publish_year := Some 0\<rparr>, book_A, book_B]
   \<and> results (run (init no_storage)
        [SetSortBy YearDesc, SetQuery ''dune'', Advance 450,
         Settle 0 (Response 200 (Parsed (Some 2) (Some (typed_docs [book_A, book_B]))))])
       = typed_docs [book_B, book_A]
   \<and> sort_docs YearDesc [[book_A, book_B]] 0 = ([[book_A, book_B], [book_B, book_A]], 1)"
  using
    sort_spec [where ds = "[book_B, book_A\<lparr>first_publish_year := None\<rparr>,
                           book_B\<lparr>first_publish_year := Some 0\<rparr>, book_A]"
      and m = YearDesc and d = "book_A\<lparr>first_publish_year := None\<rparr>"
      and s = "run (init no_storage) [SetSortBy YearDesc, SetQuery ''dune'', Advance 450]"
      and i = 0
      and r = "\<lparr>inv_term = ''dune'', inv_page = 1, inv_sort = YearDesc, aborted = False\<rparr>"
      and st = 200 and nf = "Some 2" and dso = "Some [book_A, book_B]"
      and h = "[[book_A, book_B]]" and docs = 0]
  by (simp add: model_defs apply_sort_def js_sort_def cmp_asc_def cmp_desc_def year_or_0_def
        sort_docs_def spread_def sort_in_place_def)

section \<open>Cover images\<close>

lemma number_Safe: "\<bar>i\<bar> < 2 ^ 53 \<Longrightarrow> number (Safe i) = i"
  by (simp add: Safe_inverse)

lemma digit_value_nth: "k < 10 \<Longrightarrow> digit_value (''0123456789'' ! k) = k"
proof -
  assume "k < 10"
  then have "k \<in> {0, 1, 2, 3, 4, 5, 6, 7, 8, 9}" by auto
  then show ?thesis by (auto simp: digit_value_def)
qed

lemma digit_nth_mem: "k < 10 \<Longrightarrow> ''0123456789'' ! k \<in> set ''0123456789''"
  by (rule nth_mem) simp

lemma digit_nth_nonzero: "0 < k \<Longrightarrow> k < 10 \<Longrightarrow> ''0123456789'' ! k \<noteq> CHR ''0''"
proof -
  assume "0 < k" "k < 10"
  then have "k \<in> {1, 2, 3, 4, 5, 6, 7, 8, 9}" by auto
  then show ?thesis by auto
qed

lemma decimal_value_snoc:
  "decimal_value (ds @ [ch]) = 10 * decimal_value ds + digit_value ch"
  by (simp add: decimal_value_def)

lemma decimal_value_digits: "decimal_value (digits n) = n"
proof (induction n rule: digits.induct)
  case (1 n)
  show ?case
  proof (cases "n < 10")
    case True
    then show ?thesis
      by (subst digits.simps) (simp add: decimal_value_def digit_value_nth)
  next
    case False
    then have "decimal_value (digits (n div 10)) = n div 10"
      using "1.IH" by simp
    with False show ?thesis
      by (subst digits.simps) (simp add: decimal_value_snoc digit_value_nth)
  qed
qed

lemma digits_nonempty: "digits n \<noteq> []"
  by (subst digits.simps) simp

lemma digits_chars: "set (digits n) \<subseteq> set ''0123456789''"
proof (induction n rule: digits.induct)
  case (1 n)
  show ?case
  proof (cases "n < 10")
    case True
    then show ?thesis
      using digit_nth_mem [of n] by (subst digits.simps) simp
  next
    case False
    then have "set (digits (n div 10)) \<subseteq> set ''0123456789''"
      using "1.IH" by simp
    moreover have "''0123456789'' ! (n mod 10) \<in> set ''0123456789''"
      by (rule digit_nth_mem) simp
    ultimately show ?thesis
      using False by (subst digits.simps) simp
  qed
qed

lemma digits_no_leading_zero: "n \<noteq> 0 \<Longrightarrow> hd (digits n) \<noteq> CHR ''0''"
proof (induction n rule: digits.induct)
  case (1 n)
  show ?case
  proof (cases "n < 10")
    case True
    then show ?thesis
      using "1.prems" digit_nth_nonzero [of n] by (subst digits.simps) simp
  next
    case False
    then have "n div 10 \<noteq> 0" by simp
    then have "hd (digits (n div 10)) \<noteq> CHR ''0''"
      using "1.IH" False by simp
    then show ?thesis
      using False digits_nonempty [of "n div 10"] by (subst digits.simps) simp
  qed
qed

lemma show_int_sign:
  "show_int c = (if number c < 0 then ''-'' else []) @ digits (nat \<bar>number c\<bar>)"
  by (simp add: show_int_def)

lemma coverFor_id:
  "cover_i d = Some c \<Longrightarrow> number c \<noteq> 0 \<Longrightarrow>
     coverFor d sz = Some (cover_base @ ''id/'' @ show_int c @ ''-'' @ sz @ ''.jpg'')"
  by (simp add: coverFor_def truthy_num_def)

lemma coverFor_isbn:
  "\<not> truthy_num (cover_i d) \<Longrightarrow> isbn d = Some (x # xs) \<Longrightarrow>
     coverFor d sz = Some (cover_base @ ''isbn/'' @ x @ ''-'' @ sz @ ''.jpg'')"
  by (simp add: coverFor_def truthy_len_def)

lemma coverFor_olid:
  "\<not> truthy_num (cover_i d) \<Longrightarrow> \<not> truthy_len (isbn d) \<Longrightarrow>
   cover_edition_key d = Some k \<Longrightarrow> k \<noteq> [] \<Longrightarrow>
     coverFor d sz = Some (cover_base @ ''olid/'' @ k @ ''-'' @ sz @ ''.jpg'')"
  by (simp add: coverFor_def truthy_str_def)

lemma coverFor_none:
  "\<not> truthy_num (cover_i d) \<Longrightarrow> \<not> truthy_len (isbn d) \<Longrightarrow>
   \<not> truthy_str (cover_edition_key d) \<Longrightarrow> coverFor d sz = None"
  by (simp add: coverFor_def)

text \<open>
  Claim C9. \<open>coverFor\<close> is a function of the document and the size alone. A source is
  available when the test of the code passes: a cover id that is present and not 0, an
  ISBN list that is present and not empty, an edition key that is present and not the
  empty string. The URL is built from the first available source in the order cover id,
  first ISBN, edition key; and the result is none when no source is available, in
  particular when all three fields are absent. The id appears in its URL as a minus sign
  if it is negative, followed by the decimal digits of its magnitude without a leading
  zero.
\<close>

theorem coverFor_precedence:
  "(cover_i d = Some c \<and> number c \<noteq> 0 \<longrightarrow>
      coverFor d sz = Some (cover_base @ ''id/'' @ show_int c @ ''-'' @ sz @ ''.jpg'')
      \<and> show_int c = (if number c < 0 then ''-'' else []) @ digits (nat \<bar>number c\<bar>)
      \<and> decimal_value (digits (nat \<bar>number c\<bar>)) = nat \<bar>number c\<bar>
      \<and> set (digits (nat \<bar>number c\<bar>)) \<subseteq> set ''0123456789''
      \<and> hd (digits (nat \<bar>number c\<bar>)) \<noteq> CHR ''0'')
   \<and> (\<not> truthy_num (cover_i d) \<and> isbn d = Some (x # xs) \<longrightarrow>
      coverFor d sz = Some (cover_base @ ''isbn/'' @ x @ ''-'' @ sz @ ''.jpg''))
   \<and> (\<not> truthy_num (cover_i d) \<and> \<not> truthy_len (isbn d)
        \<and> cover_edition_key d = Some k \<and> k \<noteq> [] \<longrightarrow>
      coverFor d sz = Some (cover_base @ ''olid/'' @ k @ ''-'' @ sz @ ''.jpg''))
   \<and> (\<not> truthy_num (cover_i d) \<and> \<not> truthy_len (isbn d)
        \<and> \<not> truthy_str (cover_edition_key d) \<longrightarrow> coverFor d sz = None)
   \<and> (cover_i d = None \<and> isbn d = None \<and> cover_edition_key d = None \<longrightarrow>
      coverFor d sz = None)"
proof -
  have "hd (digits (nat \<bar>number c\<bar>)) \<noteq> CHR ''0''" if "number c \<noteq> 0"
    using that by (intro digits_no_leading_zero) simp
  then show ?thesis
    using coverFor_id [of d c sz] coverFor_isbn [of d x xs sz] coverFor_olid [of d k sz]
      coverFor_none [of d sz] show_int_sign [of c]
      decimal_value_digits [of "nat \<bar>number c\<bar>"] digits_chars [of "nat \<bar>number c\<bar>"]
    by (simp add: truthy_num_def truthy_len_def truthy_str_def)
qed

text \<open>
  Ids of two, eight and sixteen digits and a negative one; an id of 0 is passed over.
\<close>

theorem coverFor_precedence_witness:
  "coverFor book_A ''M'' = Some ''https://covers.openlibrary.org/b/id/12-M.jpg''
   \<and> coverFor (book_A\<lparr>cover_i := Some (Safe 14625765)\<rparr>) ''S''
       = Some ''https://covers.openlibrary.org/b/id/14625765-S.jpg''
   \<and> coverFor (book_A\<lparr>cover_i := Some (Safe (- 1))\<rparr>) ''M''
       = Some ''https://covers.openlibrary.org/b/id/-1-M.jpg''
   \<and> coverFor (book_A\<lparr>cover_i := Some (Safe 9007199254740991)\<rparr>) ''M''
       = Some ''https://covers.openlibrary.org/b/id/9007199254740991-M.jpg''
   \<and> decimal_value ''9007199254740991'' = 9007199254740991
   \<and> coverFor (book_A\<lparr>cover_i := Some (Safe 0)\<rparr>) ''M''
       = Some ''https://covers.openlibrary.org/b/isbn/0441013597-M.jpg''
   \<and> coverFor (book_A\<lparr>cover_i := None\<rparr>) ''M''
       = Some ''https://covers.openlibrary.org/b/isbn/0441013597-M.jpg''
   \<and> coverFor (book_A\<lparr>cover_i := None, isbn := None\<rparr>) ''L''
       = Some ''https://covers.openlibrary.org/b/olid/OL7M-L.jpg''
   \<and> coverFor (book_A\<lparr>cover_i := None, isbn := None, cover_edition_key := None\<rparr>) ''M'' = None"
  using
    coverFor_precedence [where d = book_A and c = "Safe 12" and sz = "''M''"]
    coverFor_precedence [where d = "book_A\<lparr>cover_i := Some (Safe 14625765)\<rparr>"
      and c = "Safe 14625765" and sz = "''S''"]
    coverFor_precedence [where d = "book_A\<lparr>cover_i := Some (Safe (- 1))\<rparr>"
      and c = "Safe (- 1)" and sz = "''M''"]
    coverFor_precedence [where d = "book_A\<lparr>cover_i := Some (Safe 9007199254740991)\<rparr>"
      and c = "Safe 9007199254740991" and sz = "''M''"]
    coverFor_precedence [where d = "book_A\<lparr>cover_i := Some (Safe 0)\<rparr>" and sz = "''M''"
      and x = "''0441013597''" and xs = "[]"]
    coverFor_precedence [where d = "book_A\<lparr>cover_i := None\<rparr>" and sz = "''M''"
      and x = "''0441013597''" and xs = "[]"]
    coverFor_precedence [where d = "book_A\<lparr>cover_i := None, isbn := None\<rparr>" and sz = "''L''"
      and k = "''OL7M''"]
    coverFor_precedence [where d = "book_A\<lparr>cover_i := None, isbn := None,
      cover_edition_key := None\<rparr>" and sz = "''M''"]
  by (simp add: truthy_num_def truthy_len_def truthy_str_def cover_base_def number_Safe
        show_int_def digits.simps)

text \<open>
  Claim C10. When the cover id fails its test and the ISBN list is present but empty, no
  URL is built from the ISBN list: the result is the URL of the edition key when that is
  present and not the empty string, and none otherwise.
\<close>

theorem coverFor_empty_isbn:
  assumes "\<not> truthy_num (cover_i d)" and "isbn d = Some []"
  shows "(\<forall>x. coverFor d sz \<noteq> Some (cover_base @ ''isbn/'' @ x @ ''-'' @ sz @ ''.jpg''))
   \<and> (cover_edition_key d = Some k \<and> k \<noteq> [] \<longrightarrow>
        coverFor d sz = Some (cover_base @ ''olid/'' @ k @ ''-'' @ sz @ ''.jpg''))
   \<and> (\<not> truthy_str (cover_edition_key d) \<longrightarrow> coverFor d sz = None)"
  using assms by (simp add: coverFor_def truthy_len_def truthy_str_def)

theorem coverFor_empty_isbn_witness:
  "coverFor book_B ''M'' = Some ''https://covers.openlibrary.org/b/olid/OL9M-M.jpg''
   \<and> coverFor (book_B\<lparr>cover_edition_key := None\<rparr>) ''M'' = None"
  using
    coverFor_empty_isbn [where d = book_B and sz = "''M''" and k = "''OL9M''"]
    coverFor_empty_isbn [where d = "book_B\<lparr>cover_edition_key := None\<rparr>" and sz = "''M''"]
  by (simp add: truthy_num_def truthy_str_def cover_base_def)

section \<open>The invariants hold in every reachable state\<close>

lemma handler_env [simp]:
  "timers (handler e s) = timers s"
  "debounceRef (handler e s) = debounceRef s"
  "nextTimer (handler e s) = nextTimer s"
  "now (handler e s) = now s"
  "requests (handler e s) = requests s"
  "controller (handler e s) = controller s"
  "calls (handler e s) = calls s"
  by (cases e; simp add: handler_def Let_def)+

lemma clear_debounce_fields [simp]:
  "query (clear_debounce s) = query s"
  "debounceRef (clear_debounce s) = debounceRef s"
  "nextTimer (clear_debounce s) = nextTimer s"
  "now (clear_debounce s) = now s"
  "requests (clear_debounce s) = requests s"
  "controller (clear_debounce s) = controller s"
  "calls (clear_debounce s) = calls s"
  "searchTerm (clear_debounce s) = searchTerm s"
  "page (clear_debounce s) = page s"
  "sortBy (clear_debounce s) = sortBy s"
  "searchTrigger (clear_debounce s) = searchTrigger s"
  "results (clear_debounce s) = results s"
  "numFound (clear_debounce s) = numFound s"
  "error (clear_debounce s) = error s"
  "loading (clear_debounce s) = loading s"
  by (simp_all add: clear_debounce_def clearTimeout_def split: option.splits)

lemma clear_debounce_timers:
  "\<forall>t \<in> set (timers s). debounceRef s = Some (fst t) \<Longrightarrow> timers (clear_debounce s) = []"
proof (cases "debounceRef s")
  case None
  assume a: "\<forall>t \<in> set (timers s). debounceRef s = Some (fst t)"
  have "timers s = []"
    using a None by (cases "timers s") auto
  with None show ?thesis by (simp add: clear_debounce_def)
next
  case (Some h)
  assume a: "\<forall>t \<in> set (timers s). debounceRef s = Some (fst t)"
  with Some show ?thesis
    by (auto simp: clear_debounce_def clearTimeout_def filter_empty_conv)
qed

lemma clear_debounce_idem:
  "timers s = [] \<Longrightarrow> timers (clear_debounce s) = []"
  by (simp add: clear_debounce_def clearTimeout_def split: option.splits)

lemma fetch_cleanup_fields [simp]:
  "query (fetch_cleanup s) = query s"
  "debounceRef (fetch_cleanup s) = debounceRef s"
  "nextTimer (fetch_cleanup s) = nextTimer s"
  "now (fetch_cleanup s) = now s"
  "timers (fetch_cleanup s) = timers s"
  "controller (fetch_cleanup s) = controller s"
  "calls (fetch_cleanup s) = calls s"
  "searchTerm (fetch_cleanup s) = searchTerm s"
  "page (fetch_cleanup s) = page s"
  "sortBy (fetch_cleanup s) = sortBy s"
  "searchTrigger (fetch_cleanup s) = searchTrigger s"
  "results (fetch_cleanup s) = results s"
  "numFound (fetch_cleanup s) = numFound s"
  "error (fetch_cleanup s) = error s"
  "loading (fetch_cleanup s) = loading s"
  by (simp_all add: fetch_cleanup_def abort_def split: option.splits)

lemma fetch_effect_fields [simp]:
  "query (fetch_effect s) = query s"
  "debounceRef (fetch_effect s) = debounceRef s"
  "nextTimer (fetch_effect s) = nextTimer s"
  "now (fetch_effect s) = now s"
  "timers (fetch_effect s) = timers s"
  "searchTerm (fetch_effect s) = searchTerm s"
  "page (fetch_effect s) = page s"
  "sortBy (fetch_effect s) = sortBy s"
  "searchTrigger (fetch_effect s) = searchTrigger s"
  by (simp_all add: fetch_effect_def)

lemma debounce_effect_fields [simp]:
  "query (debounce_effect s) = query s"
  "now (debounce_effect s) = now s"
  "requests (debounce_effect s) = requests s"
  "controller (debounce_effect s) = controller s"
  "calls (debounce_effect s) = calls s"
  "searchTerm (debounce_effect s) = searchTerm s"
  "page (debounce_effect s) = page s"
  "sortBy (debounce_effect s) = sortBy s"
  "searchTrigger (debounce_effect s) = searchTrigger s"
  "loading (debounce_effect s) = loading s"
  by (simp_all add: debounce_effect_def Let_def)

text \<open>The effect of a re-render on the timer table.\<close>

lemma rerender_same_query:
  "query s = query old \<Longrightarrow>
     timers (rerender old s) = timers s \<and> debounceRef (rerender old s) = debounceRef s
     \<and> nextTimer (rerender old s) = nextTimer s"
  by (simp add: rerender_def Let_def)

lemma rerender_query_now [simp]:
  "query (rerender old s) = query s" "now (rerender old s) = now s"
  by (simp_all add: rerender_def Let_def debounce_cleanup_def)

lemma rerender_new_query:
  assumes "query s \<noteq> query old" "\<forall>t \<in> set (timers s). debounceRef s = Some (fst t)"
  shows "timers (rerender old s) =
           (if trim (query s) \<noteq> [] then [(nextTimer s, \<lparr>t_due = now s + 450, t_query = query s\<rparr>)]
            else [])"
    and "trim (query s) \<noteq> [] \<Longrightarrow> debounceRef (rerender old s) = Some (nextTimer s)"
proof -
  have c: "timers (clear_debounce s) = []"
    using assms(2) by (rule clear_debounce_timers)
  have cc: "timers (clear_debounce (clear_debounce s)) = []"
    using c by (rule clear_debounce_idem)
  have cf: "timers (clear_debounce (fetch_cleanup (clear_debounce s))) = []"
    by (rule clear_debounce_idem) (simp add: c)
  show "timers (rerender old s) =
           (if trim (query s) \<noteq> [] then [(nextTimer s, \<lparr>t_due = now s + 450, t_query = query s\<rparr>)]
            else [])"
    using assms(1) c cc cf
    by (simp add: rerender_def Let_def debounce_cleanup_def debounce_effect_def)
  show "trim (query s) \<noteq> [] \<Longrightarrow> debounceRef (rerender old s) = Some (nextTimer s)"
    using assms(1)
    by (simp add: rerender_def Let_def debounce_cleanup_def debounce_effect_def)
qed

lemma wf_timers_rerender:
  assumes "wf_timers old" "timers s = timers old" "debounceRef s = debounceRef old" "now s = now old"
  shows "wf_timers (rerender old s)"
proof (cases "query s = query old")
  case True
  with assms show ?thesis
    using rerender_same_query [OF True]
    by (simp add: wf_timers_def)
next
  case False
  have a: "\<forall>t \<in> set (timers s). debounceRef s = Some (fst t)"
    using assms by (simp add: wf_timers_def)
  show ?thesis
    using rerender_new_query [OF False a]
    by (simp add: wf_timers_def)
qed


text \<open>The effect of a re-render on the in-flight fetches.\<close>

lemma rerender_same_deps:
  "fetch_deps s = fetch_deps old \<Longrightarrow>
     requests (rerender old s) = requests s \<and> controller (rerender old s) = controller s
     \<and> calls (rerender old s) = calls s"
  by (simp add: rerender_def Let_def debounce_cleanup_def)

lemma fetch_rerun_wf:
  assumes "wf_requests s"
  shows "wf_requests (fetch_effect (fetch_cleanup s))"
proof -
  have a: "\<forall>j r. requests (fetch_cleanup s) j = Some r \<longrightarrow> j < length (calls s) \<and> aborted r"
    using assms
    by (auto simp: wf_requests_def fetch_cleanup_def abort_def split: option.splits)
  show ?thesis
  proof (cases "searchTerm s = []")
    case True
    with a show ?thesis
      by (simp add: wf_requests_def fetch_effect_def)
  next
    case False
    with a show ?thesis
      by (auto simp: wf_requests_def fetch_effect_def less_Suc_eq)
  qed
qed

lemma wf_requests_cong:
  "requests s' = requests s \<Longrightarrow> controller s' = controller s \<Longrightarrow> calls s' = calls s \<Longrightarrow>
     wf_requests s' = wf_requests s"
  by (simp add: wf_requests_def)

lemma fetch_rerun_cong:
  assumes "requests s' = requests s" "controller s' = controller s" "calls s' = calls s"
    "searchTerm s' = searchTerm s" "page s' = page s" "sortBy s' = sortBy s"
  shows "requests (fetch_effect (fetch_cleanup s')) = requests (fetch_effect (fetch_cleanup s))
    \<and> controller (fetch_effect (fetch_cleanup s')) = controller (fetch_effect (fetch_cleanup s))
    \<and> calls (fetch_effect (fetch_cleanup s')) = calls (fetch_effect (fetch_cleanup s))"
  using assms
  by (simp add: fetch_effect_def fetch_cleanup_def abort_def split: option.splits)

lemma rerender_new_deps:
  assumes "fetch_deps s \<noteq> fetch_deps old"
  shows "requests (rerender old s) = requests (fetch_effect (fetch_cleanup s))
    \<and> controller (rerender old s) = controller (fetch_effect (fetch_cleanup s))
    \<and> calls (rerender old s) = calls (fetch_effect (fetch_cleanup s))"
proof (cases "query s = query old")
  case True
  with assms show ?thesis by (simp add: rerender_def Let_def)
next
  case False
  have "requests (fetch_effect (debounce_effect (fetch_cleanup (debounce_cleanup s)))) = requests (fetch_effect (fetch_cleanup s))
    \<and> controller (fetch_effect (debounce_effect (fetch_cleanup (debounce_cleanup s)))) = controller (fetch_effect (fetch_cleanup s))
    \<and> calls (fetch_effect (debounce_effect (fetch_cleanup (debounce_cleanup s)))) = calls (fetch_effect (fetch_cleanup s))"
    by (simp add: fetch_effect_def fetch_cleanup_def abort_def debounce_cleanup_def
          split: option.splits)
  with assms False show ?thesis by (simp add: rerender_def Let_def)
qed

lemma wf_requests_rerender:
  assumes "wf_requests old" "requests s = requests old" "controller s = controller old"
    "calls s = calls old"
  shows "wf_requests (rerender old s)"
proof (cases "fetch_deps s = fetch_deps old")
  case True
  have "wf_requests (rerender old s) = wf_requests s"
    using rerender_same_deps [OF True] by (intro wf_requests_cong) simp_all
  also have "\<dots> = wf_requests old"
    using assms by (intro wf_requests_cong) simp_all
  finally show ?thesis using assms(1) by simp
next
  case False
  have s: "wf_requests s"
    using assms wf_requests_cong [of s old] by simp
  have "wf_requests (rerender old s) = wf_requests (fetch_effect (fetch_cleanup s))"
    using rerender_new_deps [OF False] by (intro wf_requests_cong) simp_all
  then show ?thesis using fetch_rerun_wf [OF s] by simp
qed

lemma wf_step_handler:
  assumes "wf_timers s" "wf_requests s"
  shows "wf_timers (rerender s (handler e s)) \<and> wf_requests (rerender s (handler e s))"
  using assms wf_timers_rerender [of s "handler e s"] wf_requests_rerender [of s "handler e s"]
  by simp

lemma wf_commit:
  assumes "wf_timers s" "wf_requests s"
  shows "wf_timers (commit t s) \<and> wf_requests (commit t s)"
proof -
  let ?s' = "s\<lparr>page := 1, searchTerm := trim (t_query (snd t)), searchTrigger := searchTrigger s + 1\<rparr>"
  have "wf_timers (rerender s ?s')"
    using assms(1) by (intro wf_timers_rerender) simp_all
  moreover have "wf_requests (rerender s ?s')"
    using assms(2) by (intro wf_requests_rerender) simp_all
  ultimately show ?thesis by (simp add: commit_def)
qed

lemma wf_fold_commit:
  "wf_timers s \<Longrightarrow> wf_requests s \<Longrightarrow>
     wf_timers (fold commit ts s) \<and> wf_requests (fold commit ts s)"
proof (induction ts arbitrary: s)
  case Nil
  then show ?case by simp
next
  case (Cons t ts)
  then show ?case using wf_commit [of s t] by simp
qed

lemma wf_advance:
  assumes "wf_timers s" "wf_requests s"
  shows "wf_timers (advance d s) \<and> wf_requests (advance d s)"
proof -
  let ?s' = "s\<lparr>now := now s + d, timers := filter (\<lambda>t. \<not> t_due (snd t) \<le> now s + d) (timers s)\<rparr>"
  have "length (filter (\<lambda>t. \<not> t_due (snd t) \<le> now s + d) (timers s)) \<le> length (timers s)"
    by (rule length_filter_le)
  moreover have "length (timers s) \<le> 1"
    using assms(1) by (simp add: wf_timers_def)
  ultimately have "length (filter (\<lambda>t. \<not> t_due (snd t) \<le> now s + d) (timers s)) \<le> 1"
    by (rule order_trans)
  then have t: "wf_timers ?s'"
    using assms(1) by (auto simp: wf_timers_def)
  have r: "wf_requests ?s'"
    using assms(2) by (simp add: wf_requests_def)
  show ?thesis
    using wf_fold_commit [OF t r] by (simp add: advance_def)
qed

lemma wf_settle:
  assumes "wf_timers s" "wf_requests s"
  shows "wf_timers (settle i out s) \<and> wf_requests (settle i out s)"
proof (cases "requests s i")
  case None
  with assms show ?thesis by (simp add: settle_def)
next
  case (Some r)
  have e: "timers (settle i out s) = timers s \<and> debounceRef (settle i out s) = debounceRef s
     \<and> query (settle i out s) = query s \<and> now (settle i out s) = now s
     \<and> requests (settle i out s) = (requests s)(i := None)
     \<and> controller (settle i out s) = controller s \<and> calls (settle i out s) = calls s"
    using Some
    by (simp add: settle_def Let_def fail_def persist_recent_def
          split: outcome.splits body.splits sum.splits)
  have "wf_timers (settle i out s)"
    using assms(1) e by (simp add: wf_timers_def)
  moreover have "wf_requests (settle i out s)"
    using assms(2) e by (simp add: wf_requests_def)
  ultimately show ?thesis by simp
qed

lemma wf_step:
  assumes "wf_timers s" "wf_requests s"
  shows "wf_timers (step s e) \<and> wf_requests (step s e)"
proof (cases e)
  case (Advance d)
  then show ?thesis using wf_advance [OF assms] by (simp add: step_def)
next
  case (Settle i out)
  then show ?thesis using wf_settle [OF assms] by (simp add: step_def)
qed (use wf_step_handler [OF assms] in \<open>simp_all add: step_def\<close>)

lemma wf_run:
  "wf_timers s \<Longrightarrow> wf_requests s \<Longrightarrow> wf_timers (run s es) \<and> wf_requests (run s es)"
proof (induction es arbitrary: s)
  case Nil
  then show ?case by (simp add: run_def)
next
  case (Cons e es)
  have "wf_timers (step s e) \<and> wf_requests (step s e)"
    using Cons.prems by (rule wf_step)
  then have "wf_timers (run (step s e) es) \<and> wf_requests (run (step s e) es)"
    using Cons.IH by simp
  then show ?case by (simp add: run_def)
qed

lemma wf_init: "wf_timers (init st) \<and> wf_requests (init st)"
  by (simp add: init_def wf_timers_def wf_requests_def)

lemma wf_reachable: "wf_timers (run (init st) es) \<and> wf_requests (run (init st) es)"
  using wf_init [of st] wf_run by blast

section \<open>Debouncing\<close>

lemma rerender_dep_fields [simp]:
  "searchTerm (rerender old s) = searchTerm s"
  "page (rerender old s) = page s"
  "sortBy (rerender old s) = sortBy s"
  "searchTrigger (rerender old s) = searchTrigger s"
  by (simp_all add: rerender_def Let_def debounce_cleanup_def)

lemma setquery_step:
  assumes "wf_timers s" "q \<noteq> query s" "trim q \<noteq> []"
  shows "timers (step s (SetQuery q)) = [(nextTimer s, \<lparr>t_due = now s + 450, t_query = q\<rparr>)]"
    and "query (step s (SetQuery q)) = q"
    and "now (step s (SetQuery q)) = now s"
    and "searchTerm (step s (SetQuery q)) = searchTerm s"
    and "page (step s (SetQuery q)) = page s"
    and "searchTrigger (step s (SetQuery q)) = searchTrigger s"
    and "calls (step s (SetQuery q)) = calls s"
proof -
  let ?h = "s\<lparr>query := q\<rparr>"
  have st: "step s (SetQuery q) = rerender s ?h"
    by (simp add: step_def handler_def)
  have a: "\<forall>t \<in> set (timers ?h). debounceRef ?h = Some (fst t)"
    using assms(1) by (simp add: wf_timers_def)
  have q: "query ?h \<noteq> query s"
    using assms(2) by simp
  show "timers (step s (SetQuery q)) = [(nextTimer s, \<lparr>t_due = now s + 450, t_query = q\<rparr>)]"
    using rerender_new_query(1) [OF q a] assms(3) by (simp add: st)
  have d: "fetch_deps ?h = fetch_deps s"
    by (simp add: fetch_deps_def)
  show "calls (step s (SetQuery q)) = calls s"
    using rerender_same_deps [OF d] by (simp add: st)
  show "query (step s (SetQuery q)) = q" "now (step s (SetQuery q)) = now s"
    "searchTerm (step s (SetQuery q)) = searchTerm s" "page (step s (SetQuery q)) = page s"
    "searchTrigger (step s (SetQuery q)) = searchTrigger s"
    by (simp_all add: st)
qed

lemma advance_early:
  assumes "timers s = [(h, \<lparr>t_due = due, t_query = q\<rparr>)]" "now s + d < due"
  shows "step s (Advance d) = s\<lparr>now := now s + d\<rparr>"
  using assms by (simp add: step_def advance_def)

lemma advance_fire:
  assumes "timers s = [(h, \<lparr>t_due = due, t_query = q\<rparr>)]" "due \<le> now s + d" "trim q \<noteq> []"
  shows "searchTerm (step s (Advance d)) = trim q"
    and "page (step s (Advance d)) = 1"
    and "searchTrigger (step s (Advance d)) = searchTrigger s + 1"
    and "calls (step s (Advance d)) = calls s @ [(trim q, 1, RESULTS_PER_PAGE)]"
    and "timers (step s (Advance d)) = []"
proof -
  let ?s0 = "s\<lparr>now := now s + d, timers := []\<rparr>"
  let ?s1 = "?s0\<lparr>page := 1, searchTerm := trim q, searchTrigger := searchTrigger ?s0 + 1\<rparr>"
  have st: "step s (Advance d) = rerender ?s0 ?s1"
    using assms(1,2) by (simp add: step_def advance_def commit_def)
  have d: "fetch_deps ?s1 \<noteq> fetch_deps ?s0"
    by (simp add: fetch_deps_def)
  have c: "calls (fetch_effect (fetch_cleanup ?s1)) = calls s @ [(trim q, 1, RESULTS_PER_PAGE)]"
    using assms(3) by (simp add: fetch_effect_def)
  show "calls (step s (Advance d)) = calls s @ [(trim q, 1, RESULTS_PER_PAGE)]"
    using rerender_new_deps [OF d] c by (simp add: st)
  have "query ?s1 = query ?s0" by simp
  from rerender_same_query [OF this]
  show "timers (step s (Advance d)) = []" by (simp add: st)
  show "searchTerm (step s (Advance d)) = trim q" "page (step s (Advance d)) = 1"
    "searchTrigger (step s (Advance d)) = searchTrigger s + 1"
    by (simp_all add: st)
qed

lemma typing_run:
  assumes "wf_timers s" "wf_requests s"
    and "\<forall>c \<in> set cs. trim (fst c) \<noteq> [] \<and> snd c < 450"
    and "trim qn \<noteq> []"
    and "distinct_adj (query s # map fst cs @ [qn])"
  shows "searchTerm (run s (typing cs @ [SetQuery qn])) = searchTerm s
    \<and> page (run s (typing cs @ [SetQuery qn])) = page s
    \<and> searchTrigger (run s (typing cs @ [SetQuery qn])) = searchTrigger s
    \<and> calls (run s (typing cs @ [SetQuery qn])) = calls s
    \<and> (\<exists>h. timers (run s (typing cs @ [SetQuery qn]))
            = [(h, \<lparr>t_due = now (run s (typing cs @ [SetQuery qn])) + 450, t_query = qn\<rparr>)])"
  using assms
proof (induction cs arbitrary: s)
  case Nil
  then have "qn \<noteq> query s" by simp
  from setquery_step [OF Nil.prems(1) this Nil.prems(4)]
  show ?case by (simp add: run_def)
next
  case (Cons c cs)
  obtain q d where c: "c = (q, d)" by (cases c)
  have q: "q \<noteq> query s" "trim q \<noteq> []" "d < 450"
    using Cons.prems(3,5) c by auto
  let ?a = "step s (SetQuery q)"
  let ?b = "step ?a (Advance d)"
  note A = setquery_step [OF Cons.prems(1) q(1) q(2)]
  have "now ?a + d < now s + 450"
    using q(3) A(3) by simp
  from advance_early [OF A(1) this]
  have b: "?b = ?a\<lparr>now := now ?a + d\<rparr>" .
  have wa: "wf_timers ?a \<and> wf_requests ?a"
    using Cons.prems(1,2) by (rule wf_step)
  then have wb: "wf_timers ?b" "wf_requests ?b"
    using wf_step [of ?a "Advance d"] by simp_all
  have qb: "query ?b = q"
    using A(2) by (simp add: b)
  have da: "distinct_adj (query ?b # map fst cs @ [qn])"
    using Cons.prems(5) c qb by simp
  have al: "\<forall>c \<in> set cs. trim (fst c) \<noteq> [] \<and> snd c < 450"
    using Cons.prems(3) by simp
  have r: "run s (typing (c # cs) @ [SetQuery qn]) = run ?b (typing cs @ [SetQuery qn])"
    by (simp add: run_def c)
  have f: "searchTerm ?b = searchTerm s" "page ?b = page s" "searchTrigger ?b = searchTrigger s"
    "calls ?b = calls s"
    using A by (simp_all add: b)
  show ?case
    using Cons.IH [OF wb al Cons.prems(4) da] f unfolding r by simp
qed

text \<open>
  Claim C4. Starting in any reachable state, let the input field change several times,
  each value different from the one before it and not blank, each change less than 450
  time units after the previous one. Up to the last change nothing is committed:
  \<open>searchTerm\<close>, \<open>page\<close> and \<open>searchTrigger\<close> are as before and no remote call has been
  issued; the only pending timeout is the one of the last value, due 450 units after the
  last change, every earlier one having been cleared. Once 450 units or more have passed,
  that timeout has fired: \<open>searchTerm\<close> is the trimmed last value, \<open>page\<close> is 1,
  \<open>searchTrigger\<close> has grown by one, and exactly one remote call has been issued, for the
  trimmed last value and page 1. Since a prefix of such a burst is such a burst, the
  first part holds after every intermediate change too.
\<close>

theorem debounce_commits_last:
  assumes "s = run (init st) es"
    and "\<forall>c \<in> set cs. trim (fst c) \<noteq> [] \<and> snd c < 450"
    and "trim qn \<noteq> []"
    and "distinct_adj (query s # map fst cs @ [qn])"
    and "450 \<le> d"
  shows "searchTerm (run s (typing cs @ [SetQuery qn])) = searchTerm s
    \<and> page (run s (typing cs @ [SetQuery qn])) = page s
    \<and> searchTrigger (run s (typing cs @ [SetQuery qn])) = searchTrigger s
    \<and> calls (run s (typing cs @ [SetQuery qn])) = calls s
    \<and> (\<exists>h. timers (run s (typing cs @ [SetQuery qn]))
            = [(h, \<lparr>t_due = now (run s (typing cs @ [SetQuery qn])) + 450, t_query = qn\<rparr>)])
    \<and> searchTerm (run s (typing cs @ [SetQuery qn, Advance d])) = trim qn
    \<and> page (run s (typing cs @ [SetQuery qn, Advance d])) = 1
    \<and> searchTrigger (run s (typing cs @ [SetQuery qn, Advance d])) = searchTrigger s + 1
    \<and> calls (run s (typing cs @ [SetQuery qn, Advance d]))
         = calls s @ [(trim qn, 1, RESULTS_PER_PAGE)]
    \<and> timers (run s (typing cs @ [SetQuery qn, Advance d])) = []"
proof -
  let ?s1 = "run s (typing cs @ [SetQuery qn])"
  have w: "wf_timers s" "wf_requests s"
    using wf_reachable [of st es] assms(1) by simp_all
  note T = typing_run [OF w assms(2) assms(3) assms(4)]
  then obtain h where h: "timers ?s1 = [(h, \<lparr>t_due = now ?s1 + 450, t_query = qn\<rparr>)]"
    by blast
  have due: "now ?s1 + 450 \<le> now ?s1 + d"
    using assms(5) by simp
  note F = advance_fire [OF h due assms(3)]
  have r: "run s (typing cs @ [SetQuery qn, Advance d]) = step ?s1 (Advance d)"
    by (simp add: run_def)
  show ?thesis
    using T F unfolding r by simp
qed

text \<open>Typing \<open>d\<close>, \<open>du\<close>, \<open>dun\<close>, \<open>dune\<close> in quick succession issues one call, for \<open>dune\<close>.\<close>

theorem debounce_commits_last_witness:
  "calls (run (init no_storage)
      (typing [(''d'', 100), (''du'', 100), (''dun'', 449)] @ [SetQuery ''dune ''])) = []
   \<and> searchTerm (run (init no_storage)
      (typing [(''d'', 100), (''du'', 100), (''dun'', 449)] @ [SetQuery ''dune ''])) = []
   \<and> searchTerm (run (init no_storage)
      (typing [(''d'', 100), (''du'', 100), (''dun'', 449)] @ [SetQuery ''dune '', Advance 450]))
       = ''dune''
   \<and> page (run (init no_storage)
      (typing [(''d'', 100), (''du'', 100), (''dun'', 449)] @ [SetQuery ''dune '', Advance 450])) = 1
   \<and> calls (run (init no_storage)
      (typing [(''d'', 100), (''du'', 100), (''dun'', 449)] @ [SetQuery ''dune '', Advance 450]))
       = [(''dune'', 1, 20)]"
  using debounce_commits_last [where s = "init no_storage" and st = no_storage and es = "[]"
      and cs = "[(''d'', 100), (''du'', 100), (''dun'', 449)]" and qn = "''dune ''" and d = 450]
  by (simp add: model_defs)

section \<open>Latest invocation wins\<close>

text \<open>
  Claim C1. In every reachable state, the settling of any invocation other than the last
  one issued leaves \<open>results\<close>, \<open>numFound\<close> and \<open>error\<close> as they are, whatever the network
  delivers for it; and every invocation still in flight, other than the last one issued,
  has been aborted.
\<close>

theorem latest_wins:
  assumes "s = run (init st) es"
  shows "(Suc i \<noteq> length (calls s) \<longrightarrow>
            results (step s (Settle i out)) = results s
          \<and> numFound (step s (Settle i out)) = numFound s
          \<and> error (step s (Settle i out)) = error s)
     \<and> (\<forall>j r. requests s j = Some r \<and> Suc j \<noteq> length (calls s) \<longrightarrow> aborted r)"
proof -
  have w: "wf_requests s"
    using wf_reachable [of st es] assms by simp
  have ab: "\<forall>j r. requests s j = Some r \<and> Suc j \<noteq> length (calls s) \<longrightarrow> aborted r"
    using w by (auto simp: wf_requests_def)
  have "results (settle i out s) = results s \<and> numFound (settle i out s) = numFound s
          \<and> error (settle i out s) = error s" if "Suc i \<noteq> length (calls s)"
  proof (cases "requests s i")
    case None
    then show ?thesis by (simp add: settle_def)
  next
    case (Some r)
    with ab that have "aborted r" by blast
    with Some show ?thesis by (simp add: settle_def Let_def)
  qed
  with ab show ?thesis by (simp add: step_def)
qed

text \<open>
  The first invocation is superseded by a change of the sort order; the second resolves
  first, and the late answer to the first changes nothing.
\<close>

theorem latest_wins_witness:
  "length (calls (run (init no_storage)
      [SetQuery ''dune'', Advance 450, SetSortBy YearDesc,
       Settle 1 (Response 200 (Parsed (Some 2) (Some (typed_docs [book_A, book_B]))))])) = 2
   \<and> requests (run (init no_storage)
      [SetQuery ''dune'', Advance 450, SetSortBy YearDesc,
       Settle 1 (Response 200 (Parsed (Some 2) (Some (typed_docs [book_A, book_B]))))]) 0
       = Some \<lparr>inv_term = ''dune'', inv_page = 1, inv_sort = Relevance, aborted = True\<rparr>
   \<and> results (run (init no_storage)
      [SetQuery ''dune'', Advance 450, SetSortBy YearDesc,
       Settle 1 (Response 200 (Parsed (Some 2) (Some (typed_docs [book_A, book_B])))),
       Settle 0 (Response 200 (Parsed (Some 7) (Some (typed_docs [book_A]))))]) = typed_docs [book_B, book_A]
   \<and> numFound (run (init no_storage)
      [SetQuery ''dune'', Advance 450, SetSortBy YearDesc,
       Settle 1 (Response 200 (Parsed (Some 2) (Some (typed_docs [book_A, book_B])))),
       Settle 0 (Response 200 (Parsed (Some 7) (Some (typed_docs [book_A]))))]) = 2
   \<and> error (run (init no_storage)
      [SetQuery ''dune'', Advance 450, SetSortBy YearDesc,
       Settle 1 (Response 200 (Parsed (Some 2) (Some (typed_docs [book_A, book_B])))),
       Settle 0 (Response 500 (Malformed ''oops''))]) = None"
  using
    latest_wins [where s = "run (init no_storage)
      [SetQuery ''dune'', Advance 450, SetSortBy YearDesc,
       Settle 1 (Response 200 (Parsed (Some 2) (Some (typed_docs [book_A, book_B]))))]"
      and st = no_storage and es = "[SetQuery ''dune'', Advance 450, SetSortBy YearDesc,
       Settle 1 (Response 200 (Parsed (Some 2) (Some (typed_docs [book_A, book_B]))))]"
      and i = 0 and out = "Response 200 (Parsed (Some 7) (Some (typed_docs [book_A])))"]
    latest_wins [where s = "run (init no_storage)
      [SetQuery ''dune'', Advance 450, SetSortBy YearDesc,
       Settle 1 (Response 200 (Parsed (Some 2) (Some (typed_docs [book_A, book_B]))))]"
      and st = no_storage and es = "[SetQuery ''dune'', Advance 450, SetSortBy YearDesc,
       Settle 1 (Response 200 (Parsed (Some 2) (Some (typed_docs [book_A, book_B]))))]"
      and i = 0 and out = "Response 500 (Malformed ''oops'')"]
  by (simp add: model_defs)

text \<open>
  Claim C2 fails on the code. The \<open>finally\<close> block of \<open>fetchBooks\<close> runs for an aborted
  invocation too: after the first invocation has been superseded, its rejection sets
  \<open>loading\<close> to false while the second invocation is still in flight.
\<close>

theorem stale_settle_resets_loading:
  "loading (run (init no_storage) [SetQuery ''dune'', Advance 450, SetSortBy YearDesc])
   \<and> requests (run (init no_storage) [SetQuery ''dune'', Advance 450, SetSortBy YearDesc]) 0
       = Some \<lparr>inv_term = ''dune'', inv_page = 1, inv_sort = Relevance, aborted = True\<rparr>
   \<and> \<not> loading (run (init no_storage)
        [SetQuery ''dune'', Advance 450, SetSortBy YearDesc,
         Settle 0 (NetworkFailure ''The user aborted a request.'')])
   \<and> requests (run (init no_storage)
        [SetQuery ''dune'', Advance 450, SetSortBy YearDesc,
         Settle 0 (NetworkFailure ''The user aborted a request.'')]) 1
       = Some \<lparr>inv_term = ''dune'', inv_page = 1, inv_sort = YearDesc, aborted = False\<rparr>"
  by (simp add: model_defs)

section \<open>Failures\<close>





text \<open>
  The two predicates cover the \<open>catch\<close> block: an invocation that is not aborted and whose
  outcome is no failure runs to the end of the \<open>try\<close> block.
\<close>

lemma not_failure_succeeds:
  assumes "requests s i = Some r" "\<not> aborted r" "\<not> is_failure (inv_sort r) out"
  shows "error (settle i out s) = error s
     \<and> recent (settle i out s) = record_recent (inv_term r) (recent s)
     \<and> \<not> loading (settle i out s)"
  using assms
  by (auto simp: settle_def Let_def is_failure_def fails_early_def fails_in_sort_def
        persist_recent_def split: outcome.splits body.splits sum.splits)




section \<open>Emptying the query\<close>

text \<open>
  Claim C8. In every reachable state, a change of the input field to a value whose
  trimmed form is empty leaves no timeout pending, sets \<open>results\<close> to empty, \<open>numFound\<close> to 0
  and \<open>error\<close> to none, and issues no remote call. The same holds for the clear button,
  which also empties \<open>searchTerm\<close>.
\<close>

theorem empty_query_clears:
  assumes "s = run (init st) es"
  shows "(trim q = [] \<and> q \<noteq> query s \<longrightarrow>
            timers (step s (SetQuery q)) = [] \<and> results (step s (SetQuery q)) = Array []
          \<and> numFound (step s (SetQuery q)) = 0 \<and> error (step s (SetQuery q)) = None
          \<and> calls (step s (SetQuery q)) = calls s)
     \<and> timers (step s ClickClear) = [] \<and> results (step s ClickClear) = Array []
     \<and> numFound (step s ClickClear) = 0 \<and> error (step s ClickClear) = None
     \<and> calls (step s ClickClear) = calls s"
proof -
  have w: "wf_timers s"
    using wf_reachable [of st es] assms by simp
  have A: "timers (step s (SetQuery q)) = [] \<and> results (step s (SetQuery q)) = Array []
          \<and> numFound (step s (SetQuery q)) = 0 \<and> error (step s (SetQuery q)) = None
          \<and> calls (step s (SetQuery q)) = calls s" if q: "trim q = []" "q \<noteq> query s"
  proof -
    let ?h = "s\<lparr>query := q\<rparr>"
    have st: "step s (SetQuery q) = rerender s ?h"
      by (simp add: step_def handler_def)
    have a: "\<forall>t \<in> set (timers ?h). debounceRef ?h = Some (fst t)"
      using w by (simp add: wf_timers_def)
    have qq: "query ?h \<noteq> query s" using q(2) by simp
    have d: "fetch_deps ?h = fetch_deps s"
      by (simp add: fetch_deps_def)
    have t: "timers (step s (SetQuery q)) = []"
      using rerender_new_query(1) [OF qq a] q(1) by (simp add: st)
    have c: "calls (step s (SetQuery q)) = calls s"
      using rerender_same_deps [OF d] by (simp add: st)
    have "rerender s ?h = debounce_effect (debounce_cleanup ?h)"
      using qq d by (simp add: rerender_def Let_def)
    then have "results (rerender s ?h) = Array [] \<and> numFound (rerender s ?h) = 0
        \<and> error (rerender s ?h) = None"
      using q(1) by (simp add: debounce_effect_def debounce_cleanup_def Let_def)
    with t c show ?thesis by (simp add: st)
  qed
  let ?h = "s\<lparr>query := [], searchTerm := [], results := Array [], numFound := 0, error := None\<rparr>"
  have st: "step s ClickClear = rerender s ?h"
    by (simp add: step_def handler_def)
  have tr: "trim [] = []" by (simp add: trim_def)
  have t: "timers (rerender s ?h) = []"
  proof (cases "query s = []")
    case True
    then have "timers s = []"
      using w tr by (cases "timers s") (auto simp: wf_timers_def)
    moreover have "query ?h = query s" using True by simp
    from rerender_same_query [OF this] have "timers (rerender s ?h) = timers s" by simp
    ultimately show ?thesis by simp
  next
    case False
    then have qq: "query ?h \<noteq> query s" by simp
    have a: "\<forall>t \<in> set (timers ?h). debounceRef ?h = Some (fst t)"
      using w by (simp add: wf_timers_def)
    show ?thesis
      using rerender_new_query(1) [OF qq a] tr by simp
  qed
  have c: "calls (rerender s ?h) = calls s"
  proof (cases "fetch_deps ?h = fetch_deps s")
    case True
    from rerender_same_deps [OF True] show ?thesis by simp
  next
    case False
    from rerender_new_deps [OF False] show ?thesis
      by (simp add: fetch_effect_def)
  qed
  have r: "results (rerender s ?h) = Array [] \<and> numFound (rerender s ?h) = 0 \<and> error (rerender s ?h) = None"
    by (simp add: rerender_def Let_def debounce_cleanup_def debounce_effect_def fetch_effect_def tr)
  show ?thesis
    using A t c r by (simp add: st)
qed

text \<open>Blanking the field after a search, with a commit pending.\<close>

theorem empty_query_clears_witness:
  "results (run (init no_storage)
      [SetQuery ''dune'', Advance 450,
       Settle 0 (Response 200 (Parsed (Some 2) (Some (typed_docs [book_A, book_B])))), SetQuery ''dune 2''])
     = typed_docs [book_A, book_B]
   \<and> timers (run (init no_storage)
      [SetQuery ''dune'', Advance 450,
       Settle 0 (Response 200 (Parsed (Some 2) (Some (typed_docs [book_A, book_B])))), SetQuery ''dune 2''])
     = [(2, \<lparr>t_due = 900, t_query = ''dune 2''\<rparr>)]
   \<and> timers (run (init no_storage)
      [SetQuery ''dune'', Advance 450,
       Settle 0 (Response 200 (Parsed (Some 2) (Some (typed_docs [book_A, book_B])))), SetQuery ''dune 2'',
       SetQuery '' '']) = []
   \<and> results (run (init no_storage)
      [SetQuery ''dune'', Advance 450,
       Settle 0 (Response 200 (Parsed (Some 2) (Some (typed_docs [book_A, book_B])))), SetQuery ''dune 2'',
       SetQuery '' '']) = Array []
   \<and> numFound (run (init no_storage)
      [SetQuery ''dune'', Advance 450,
       Settle 0 (Response 200 (Parsed (Some 2) (Some (typed_docs [book_A, book_B])))), SetQuery ''dune 2'',
       SetQuery '' '']) = 0
   \<and> calls (run (init no_storage)
      [SetQuery ''dune'', Advance 450,
       Settle 0 (Response 200 (Parsed (Some 2) (Some (typed_docs [book_A, book_B])))), SetQuery ''dune 2'',
       SetQuery '' '']) = [(''dune'', 1, 20)]"
  using
    empty_query_clears [where s = "run (init no_storage)
      [SetQuery ''dune'', Advance 450,
       Settle 0 (Response 200 (Parsed (Some 2) (Some (typed_docs [book_A, book_B])))), SetQuery ''dune 2'']"
      and st = no_storage and es = "[SetQuery ''dune'', Advance 450,
       Settle 0 (Response 200 (Parsed (Some 2) (Some (typed_docs [book_A, book_B])))), SetQuery ''dune 2'']"
      and q = "'' ''"]
  by (simp add: model_defs)

end
